theory Spec2Isabelle
  imports Complex_Main
begin

section \<open>The collage layout engine of \<^verbatim>\<open>src/lib/collage.ts\<close>\<close>

text \<open>
  The source computes with JavaScript numbers. A number is modelled as a \<^typ>\<open>real\<close>; where
  the source applies \<^verbatim>\<open>Math.floor\<close> or \<^verbatim>\<open>Math.round\<close> the model continues with the
  resulting \<^typ>\<open>int\<close>. \<^verbatim>\<open>Math.round\<close> rounds halves upwards, which is \<^const>\<open>round\<close>
  (\<open>round x = \<lfloor>x + 1/2\<rfloor>\<close>). The rounding error of IEEE doubles, \<^verbatim>\<open>NaN\<close> and the infinities
  are outside the model: arithmetic is exact.
\<close>

subsection \<open>Data model\<close>

text \<open>
  The fields of the records carry a prefix (\<open>rect_x\<close> for \<^verbatim>\<open>Rect.x\<close>, \<open>opt_size\<close> for
  \<^verbatim>\<open>CollageLayoutOptions.size\<close>, and so on), since a field is a constant of the theory.
\<close>

record Rect =
  rect_x :: real
  rect_y :: real
  rect_width :: real
  rect_height :: real

subsection \<open>Helpers\<close>

definition clamp :: "'a::linorder \<Rightarrow> 'a \<Rightarrow> 'a \<Rightarrow> 'a" where
  "clamp v mn mx = min mx (max mn v)"

text \<open>
  \<^verbatim>\<open>distribute(total, parts)\<close>: \<^verbatim>\<open>Array.from({length: safeParts}, (_, i) => base + (i < rem ? 1 : 0))\<close>.
\<close>

definition distribute :: "real \<Rightarrow> real \<Rightarrow> int list" where
  "distribute tot parts =
     (let safeParts = max 1 \<lfloor>parts\<rfloor>;
          safeTotal = max 0 \<lfloor>tot\<rfloor>;
          base = \<lfloor>real_of_int safeTotal / real_of_int safeParts\<rfloor>;
          rem = safeTotal - base * safeParts
      in map (\<lambda>i. base + (if int i < rem then 1 else 0)) [0..<nat safeParts])"

datatype RegionName = Top | Right | Bottom | Left

record Region =
  region_name :: RegionName
  region_rect :: Rect
  region_area :: real

text \<open>
  The remainder operator \<^verbatim>\<open>%\<close> of JavaScript on integers: the result has the sign of the
  dividend.
\<close>

definition js_rem :: "int \<Rightarrow> int \<Rightarrow> int" where
  "js_rem a b = sgn a * (\<bar>a\<bar> mod \<bar>b\<bar>)"

subsection \<open>Region partitioner\<close>

text \<open>
  \<^verbatim>\<open>computeRegions(size, mainRatio)\<close>. Its only caller passes
  \<^verbatim>\<open>Math.max(64, Math.floor(options.size))\<close>, so \<open>size\<close> is an \<^typ>\<open>int\<close> here; the ratio is
  any number. The result is the pair \<open>(mainRect, regions)\<close>.
\<close>

definition computeRegions :: "int \<Rightarrow> real \<Rightarrow> Rect \<times> Region list" where
  "computeRegions sz mainRatio =
     (let safeRatio = clamp mainRatio 0.05 0.95;
          mainSize0 = round (real_of_int sz * safeRatio);
          mainSize1 = clamp mainSize0 1 sz;
          mainSize =
            (if js_rem (sz - mainSize1) 2 \<noteq> 0 then
               (let down = mainSize1 - 1; up = mainSize1 + 1
                in if down \<ge> 1 \<and> js_rem (sz - down) 2 = 0 then down
                   else if up \<le> sz \<and> js_rem (sz - up) 2 = 0 then up
                   else mainSize1)
             else mainSize1);
          ringT = max 0 (real_of_int (sz - mainSize) / 2);
          mainRect = \<lparr>rect_x = ringT, rect_y = ringT,
                      rect_width = real_of_int mainSize, rect_height = real_of_int mainSize\<rparr>;
          top = \<lparr>rect_x = 0, rect_y = 0, rect_width = real_of_int sz, rect_height = ringT\<rparr>;
          bottom = \<lparr>rect_x = 0, rect_y = ringT + real_of_int mainSize,
                    rect_width = real_of_int sz, rect_height = ringT\<rparr>;
          left = \<lparr>rect_x = 0, rect_y = ringT, rect_width = ringT,
                  rect_height = real_of_int mainSize\<rparr>;
          right = \<lparr>rect_x = ringT + real_of_int mainSize, rect_y = ringT, rect_width = ringT,
                   rect_height = real_of_int mainSize\<rparr>;
          regions =
            [\<lparr>region_name = Top, region_rect = top, region_area = rect_width top * rect_height top\<rparr>,
             \<lparr>region_name = Right, region_rect = right,
              region_area = rect_width right * rect_height right\<rparr>,
             \<lparr>region_name = Bottom, region_rect = bottom,
              region_area = rect_width bottom * rect_height bottom\<rparr>,
             \<lparr>region_name = Left, region_rect = left,
              region_area = rect_width left * rect_height left\<rparr>]
      in (mainRect, regions))"

subsection \<open>Count allocator\<close>

record Share =
  share_name :: RegionName
  share_exact :: real
  share_base :: int
  share_frac :: real

text \<open>
  \<^verbatim>\<open>for (let i = 0; i < remaining; i++) raw[i % raw.length].base += 1\<close>. The loop is only
  reached with a non-empty \<open>raw\<close> (an empty region list has ring area 0 and returns before).
\<close>

function bumpLoop :: "int \<Rightarrow> int \<Rightarrow> Share list \<Rightarrow> Share list" where
  "bumpLoop i remaining raw =
     (if i < remaining then
        (let k = nat (js_rem i (int (length raw)))
         in bumpLoop (i + 1) remaining
              (raw[k := (raw ! k)\<lparr>share_base := share_base (raw ! k) + 1\<rparr>]))
      else raw)"
  by pat_completeness auto
termination
  by (relation "measure (\<lambda>(i, remaining, raw). nat (remaining - i))") auto

declare bumpLoop.simps [simp del]

text \<open>
  \<^verbatim>\<open>allocateCounts(total, regions)\<close>. The returned \<^verbatim>\<open>Record<RegionName, number>\<close> is a
  function on region names. \<^verbatim>\<open>raw.sort((a, b) => b.frac - a.frac)\<close> is a stable sort by
  descending \<open>frac\<close>, as \<^const>\<open>sort_key\<close> on the negated key is.
\<close>

definition allocateCounts :: "real \<Rightarrow> Region list \<Rightarrow> (RegionName \<Rightarrow> int)" where
  "allocateCounts tot regions =
     (let safeTotal = max 0 \<lfloor>tot\<rfloor>;
          ringArea = foldl (\<lambda>s r. s + region_area r) 0 regions
      in if safeTotal = 0 \<or> ringArea \<le> 0 then (\<lambda>_. 0)
         else
           (let raw = map (\<lambda>r. let exact = (region_area r / ringArea) * real_of_int safeTotal
                               in \<lparr>share_name = region_name r, share_exact = exact,
                                   share_base = \<lfloor>exact\<rfloor>,
                                   share_frac = exact - real_of_int \<lfloor>exact\<rfloor>\<rparr>) regions;
                used = foldl (\<lambda>s r. s + share_base r) 0 raw;
                remaining = safeTotal - used;
                sorted = sort_key (\<lambda>r. - share_frac r) raw;
                bumped = bumpLoop 0 remaining sorted;
                out = foldl (\<lambda>out r. out(share_name r := share_base r)) (\<lambda>_. 0) bumped;
                used2 = foldl (\<lambda>s v. s + v) 0 [out Top, out Right, out Bottom, out Left]
            in if used2 \<noteq> safeTotal
               then out(Top := out Top + (safeTotal - used2))
               else out))"

subsection \<open>Grid packer\<close>

text \<open>
  The inner loop of \<^verbatim>\<open>computeBestRowsNoWaste\<close> over the rows \<open>r\<close> of one candidate: \<open>None\<close>
  is \<^verbatim>\<open>ok = false\<close>, \<open>Some score\<close> the accumulated score.
\<close>

function scoreRows ::
  "int \<Rightarrow> int \<Rightarrow> int \<Rightarrow> int \<Rightarrow> int \<Rightarrow> real \<Rightarrow> nat \<Rightarrow> real \<Rightarrow> real option" where
  "scoreRows rows base extra width gap rowHeight r score =
     (if int r < rows then
        (let rowCount = base + (if int r < extra then 1 else 0);
             availableWidth = width - gap * (rowCount - 1)
         in if availableWidth < rowCount then None
            else
              (let cellW = real_of_int availableWidth / real_of_int rowCount;
                   aspect = (if rowHeight = 0 then 999 else cellW / rowHeight)
               in scoreRows rows base extra width gap rowHeight (r + 1)
                    (score + \<bar>ln aspect\<bar> * real_of_int rowCount)))
      else Some score)"
  by pat_completeness auto
termination
  by (relation "measure (\<lambda>(rows, base, extra, width, gap, rowHeight, r, score). nat rows - r)") auto

declare scoreRows.simps [simp del]

text \<open>
  \<^verbatim>\<open>bestScore\<close> starts as \<^verbatim>\<open>Number.POSITIVE_INFINITY\<close>, modelled by \<open>None\<close>;
  \<open>score_less score bestScore\<close> is \<^verbatim>\<open>score < bestScore\<close>.
\<close>

definition score_less :: "real \<Rightarrow> real option \<Rightarrow> bool" where
  "score_less score bestScore = (case bestScore of None \<Rightarrow> True | Some b \<Rightarrow> score < b)"

text \<open>The outer loop over the candidate row counts, with its \<^verbatim>\<open>break\<close>s and \<^verbatim>\<open>continue\<close>.\<close>

function rowsLoop ::
  "int \<Rightarrow> int \<Rightarrow> int \<Rightarrow> int \<Rightarrow> int \<Rightarrow> int \<Rightarrow> int option \<Rightarrow> real option \<Rightarrow> int option" where
  "rowsLoop n width height gap maxRows rows bestRows bestScore =
     (if rows \<le> maxRows then
        (let availableHeight = height - gap * (rows - 1)
         in if availableHeight < rows then bestRows
            else
              (let base = \<lfloor>real_of_int n / real_of_int rows\<rfloor>
               in if base \<le> 0 then bestRows
                  else
                    (let extra = n - base * rows;
                         rowHeight = real_of_int availableHeight / real_of_int rows
                     in case scoreRows rows base extra width gap rowHeight 0 0 of
                          None \<Rightarrow> rowsLoop n width height gap maxRows (rows + 1) bestRows bestScore
                        | Some score \<Rightarrow>
                            if score_less score bestScore
                            then rowsLoop n width height gap maxRows (rows + 1)
                                   (Some rows) (Some score)
                            else rowsLoop n width height gap maxRows (rows + 1)
                                   bestRows bestScore)))
      else bestRows)"
  by pat_completeness auto
termination
  by (relation "measure (\<lambda>(n, width, height, gap, maxRows, rows, bestRows, bestScore).
                  nat (maxRows + 1 - rows))") auto

declare rowsLoop.simps [simp del]

text \<open>
  \<^verbatim>\<open>computeBestRowsNoWaste({count, width, height, gap})\<close>: \<open>None\<close> is \<^verbatim>\<open>null\<close>.
\<close>

definition computeBestRowsNoWaste :: "real \<Rightarrow> real \<Rightarrow> real \<Rightarrow> real \<Rightarrow> int option" where
  "computeBestRowsNoWaste count width height gap =
     (let n = max 0 \<lfloor>count\<rfloor>;
          width = max 0 \<lfloor>width\<rfloor>;
          height = max 0 \<lfloor>height\<rfloor>;
          gap = max 0 \<lfloor>gap\<rfloor>
      in if n = 0 \<or> width = 0 \<or> height = 0 then Some 0
         else rowsLoop n width height gap (min n height) 1 None None)"

text \<open>
  The column loop of \<^verbatim>\<open>tryBuildCellsFilled\<close>: pushes the cells of one row and stops early
  when \<^verbatim>\<open>cells.length === n\<close>.
\<close>

function colsLoop ::
  "int \<Rightarrow> int \<Rightarrow> int list \<Rightarrow> int \<Rightarrow> int \<Rightarrow> int \<Rightarrow> nat \<Rightarrow> int \<Rightarrow> Rect list \<Rightarrow> Rect list" where
  "colsLoop n gap colWidths rowHeight y rowCount c x cells =
     (if int c < rowCount then
        (let cells' = cells @ [\<lparr>rect_x = real_of_int x, rect_y = real_of_int y,
                                 rect_width = real_of_int (colWidths ! c),
                                 rect_height = real_of_int rowHeight\<rparr>];
             x' = x + colWidths ! c + gap
         in if int (length cells') = n then cells'
            else colsLoop n gap colWidths rowHeight y rowCount (c + 1) x' cells')
      else cells)"
  by pat_completeness auto
termination
  by (relation "measure (\<lambda>(n, gap, colWidths, rowHeight, y, rowCount, c, x, cells).
                  nat rowCount - c)") auto

declare colsLoop.simps [simp del]

text \<open>
  The row loop of \<^verbatim>\<open>tryBuildCellsFilled\<close>: \<open>None\<close> is the \<^verbatim>\<open>return null\<close> inside the loop,
  \<open>Some cells\<close> the cells when the loop is left (at its end or by \<^verbatim>\<open>break\<close>).
\<close>

function rowsEmit ::
  "int \<Rightarrow> int \<Rightarrow> int \<Rightarrow> int \<Rightarrow> int \<Rightarrow> int list \<Rightarrow> int list \<Rightarrow> nat \<Rightarrow> int \<Rightarrow> Rect list
     \<Rightarrow> Rect list option" where
  "rowsEmit n gap x0 width rows rowCounts rowHeights r y cells =
     (if int r < rows then
        (let rowCount = rowCounts ! r;
             availableWidth = width - gap * (rowCount - 1)
         in if availableWidth < rowCount then None
            else
              (let colWidths = distribute (real_of_int availableWidth) (real_of_int rowCount);
                   cells' = colsLoop n gap colWidths (rowHeights ! r) y rowCount 0 x0 cells;
                   y' = y + rowHeights ! r + gap
               in if int (length cells') = n then Some cells'
                  else rowsEmit n gap x0 width rows rowCounts rowHeights (r + 1) y' cells'))
      else Some cells)"
  by pat_completeness auto
termination
  by (relation "measure (\<lambda>(n, gap, x0, width, rows, rowCounts, rowHeights, r, y, cells).
                  nat rows - r)") auto

declare rowsEmit.simps [simp del]

text \<open>\<^verbatim>\<open>tryBuildCellsFilled({rect, count, gap})\<close>: \<open>None\<close> is \<^verbatim>\<open>null\<close>.\<close>

definition tryBuildCellsFilled :: "Rect \<Rightarrow> real \<Rightarrow> real \<Rightarrow> Rect list option" where
  "tryBuildCellsFilled rect count gap0 =
     (let n = max 0 \<lfloor>count\<rfloor>
      in if n = 0 then Some []
         else
           (let gap = max 0 \<lfloor>gap0\<rfloor>;
                x0 = round (rect_x rect);
                y0 = round (rect_y rect);
                width = round (rect_width rect);
                height = round (rect_height rect)
            in if width \<le> 0 \<or> height \<le> 0 then None
               else
                 (case computeBestRowsNoWaste (real_of_int n) (real_of_int width)
                         (real_of_int height) (real_of_int gap) of
                    None \<Rightarrow> None
                  | Some rows \<Rightarrow>
                      if rows \<le> 0 then None
                      else
                        (let base = \<lfloor>real_of_int n / real_of_int rows\<rfloor>;
                             extra = n - base * rows
                         in if base \<le> 0 then None
                            else
                              (let rowCounts = map (\<lambda>r. base + (if int r < extra then 1 else 0))
                                                 [0..<nat rows];
                                   availableHeight = height - gap * (rows - 1)
                               in if availableHeight < rows then None
                                  else
                                    (let rowHeights = distribute (real_of_int availableHeight)
                                                        (real_of_int rows)
                                     in case rowsEmit n gap x0 width rows rowCounts rowHeights
                                               0 y0 [] of
                                          None \<Rightarrow> None
                                        | Some cells \<Rightarrow>
                                            if int (length cells) = n then Some cells
                                            else None))))))"

text \<open>
  The retry loop of \<^verbatim>\<open>buildCellsFilled\<close>: up to four attempts, halving the gap after each
  failure. \<open>Some cells\<close> is the \<^verbatim>\<open>return cells\<close> inside the loop.
\<close>

function attemptLoop :: "Rect \<Rightarrow> int \<Rightarrow> int \<Rightarrow> nat \<Rightarrow> Rect list option" where
  "attemptLoop rect n g attempt =
     (if attempt < 4 then
        (case tryBuildCellsFilled rect (real_of_int n) (real_of_int g) of
           Some cells \<Rightarrow> Some cells
         | None \<Rightarrow> attemptLoop rect n \<lfloor>real_of_int g / 2\<rfloor> (attempt + 1))
      else None)"
  by pat_completeness auto
termination
  by (relation "measure (\<lambda>(rect, n, g, attempt). 4 - attempt)") auto

declare attemptLoop.simps [simp del]

definition buildCellsFilled :: "Rect \<Rightarrow> real \<Rightarrow> real \<Rightarrow> Rect list" where
  "buildCellsFilled rect count gap =
     (let n = max 0 \<lfloor>count\<rfloor>
      in if n = 0 then []
         else
           (let g = max 0 \<lfloor>gap\<rfloor>
            in case attemptLoop rect n g 0 of
                 Some cells \<Rightarrow> cells
               | None \<Rightarrow>
                   (case tryBuildCellsFilled rect (real_of_int n) 0 of
                      Some cells \<Rightarrow> cells
                    | None \<Rightarrow> [])))"

subsection \<open>Layout assembler\<close>

record CollageLayoutOptions =
  opt_size :: real
  opt_mainRatio :: real
  opt_gap :: real
  opt_othersCount :: real

record CollageLayout =
  layout_size :: int
  layout_gap :: real
  mainRect :: Rect
  ringCells :: "Rect list"

definition computeCollageLayout :: "CollageLayoutOptions \<Rightarrow> CollageLayout" where
  "computeCollageLayout options =
     (let sz = max 64 \<lfloor>opt_size options\<rfloor>;
          gap = clamp (opt_gap options) 0 (real_of_int \<lfloor>real_of_int sz / 8\<rfloor>);
          othersCount = max 0 \<lfloor>opt_othersCount options\<rfloor>;
          (mainRect, regions) = computeRegions sz (opt_mainRatio options);
          counts = allocateCounts (real_of_int othersCount) regions;
          ringCells = foldl (\<lambda>ringCells region.
                         ringCells @ buildCellsFilled (region_rect region)
                                       (real_of_int (counts (region_name region))) gap)
                       [] regions
      in \<lparr>layout_size = sz, layout_gap = gap, mainRect = mainRect, ringCells = ringCells\<rparr>)"


subsection \<open>Render pipeline\<close>

text \<open>
  \<^verbatim>\<open>renderCollageToCanvas\<close> is asynchronous and works on the platform: a canvas, an image
  decoder, an abort signal and \<^verbatim>\<open>Math.random\<close>. The model makes these explicit. What the
  platform answers is a \<open>Platform\<close> value; what the function does to the canvas is the list of
  canvas operations it performs, in order, together with the error it throws, if any. The
  progress callbacks and the yields to the frame scheduler are left out. A \<^verbatim>\<open>File\<close> is a value
  of the type parameter \<open>'f\<close>, and the decoded drawable is identified with its file.
\<close>

record RenderCollageOptions =
  ropt_size :: real
  ropt_mainRatio :: real
  ropt_gap :: real
  ropt_background :: string
  ropt_shuffleOthers :: bool
  ropt_useMain :: bool

record 'f CollageImageItem =
  item_id :: string
  item_file :: 'f

text \<open>
  \<open>context2d\<close>: \<^verbatim>\<open>canvas.getContext("2d")\<close> is not null. \<open>decodeImage f\<close>: the width and height of
  the decoded image, \<open>None\<close> when decoding throws. \<open>aborted k\<close>: the value of
  \<^verbatim>\<open>signal?.aborted\<close> at the check with number \<open>k\<close> (the loop index, and the number of ring
  images for the check before the main image). \<open>random k\<close>: the result of the call of
  \<^verbatim>\<open>Math.random()\<close> with number \<open>k\<close>, a number in \<open>[0, 1)\<close>.
\<close>

record 'f Platform =
  context2d :: bool
  decodeImage :: "'f \<Rightarrow> (real \<times> real) option"
  aborted :: "nat \<Rightarrow> bool"
  random :: "nat \<Rightarrow> real"

datatype 'f CanvasOp =
  Resize int
  | FillRect string real real real real
  | DrawImage 'f real real real real real real real real

datatype RenderError =
  NoImages | NoContext | NotEnoughCells | NotEnoughRingCells | AbortError | DecodeError

definition drawImageCover :: "'f \<Rightarrow> real \<Rightarrow> real \<Rightarrow> Rect \<Rightarrow> 'f CanvasOp list" where
  "drawImageCover source sourceW sourceH dest =
     (if rect_width dest \<le> 0 \<or> rect_height dest \<le> 0 \<or> sourceW \<le> 0 \<or> sourceH \<le> 0 then []
      else
        (let scale = max (rect_width dest / sourceW) (rect_height dest / sourceH);
             sWidth = rect_width dest / scale;
             sHeight = rect_height dest / scale;
             sx = (sourceW - sWidth) / 2;
             sy = (sourceH - sHeight) / 2
         in [DrawImage source (max 0 sx) (max 0 sy) (max 1 sWidth) (max 1 sHeight)
               (rect_x dest) (rect_y dest) (rect_width dest) (rect_height dest)]))"

text \<open>
  \<^verbatim>\<open>shuffleInPlace\<close>: \<open>i\<close> runs from \<open>length - 1\<close> down to 1, and the call with number \<open>k\<close> of
  \<^verbatim>\<open>Math.random()\<close> picks \<open>j = \<lfloor>random k * (i + 1)\<rfloor>\<close>, an index in \<open>0..i\<close>, to swap with.
\<close>

fun shuffleLoop :: "(nat \<Rightarrow> real) \<Rightarrow> nat \<Rightarrow> nat \<Rightarrow> 'a list \<Rightarrow> 'a list" where
  "shuffleLoop rnd k 0 arr = arr"
| "shuffleLoop rnd k (Suc i') arr =
     (let i = Suc i';
          j = nat \<lfloor>rnd k * real (i + 1)\<rfloor>
      in shuffleLoop rnd (k + 1) i' (arr[i := arr ! j, j := arr ! i]))"

definition shuffleInPlace :: "(nat \<Rightarrow> real) \<Rightarrow> 'a list \<Rightarrow> 'a list" where
  "shuffleInPlace rnd arr = shuffleLoop rnd 0 (length arr - 1) arr"

text \<open>Decoding an image and drawing it into \<open>dest\<close>; \<open>None\<close> when decoding throws.\<close>

definition decodeAndDraw :: "'f Platform \<Rightarrow> 'f CollageImageItem \<Rightarrow> Rect \<Rightarrow> 'f CanvasOp list option" where
  "decodeAndDraw env item dest =
     (case decodeImage env (item_file item) of
        None \<Rightarrow> None
      | Some (w, h) \<Rightarrow> Some (drawImageCover (item_file item) w h dest))"

text \<open>The loop of the mode without a main image: the cells are as many as the images.\<close>

function flatLoop ::
  "'f Platform \<Rightarrow> 'f CollageImageItem list \<Rightarrow> Rect list \<Rightarrow> nat \<Rightarrow> 'f CanvasOp list
     \<Rightarrow> 'f CanvasOp list \<times> RenderError option" where
  "flatLoop env ordered cells idx ops =
     (if idx < length ordered then
        (if aborted env idx then (ops, Some AbortError)
         else
           (case decodeAndDraw env (ordered ! idx) (cells ! idx) of
              None \<Rightarrow> (ops, Some DecodeError)
            | Some drawn \<Rightarrow> flatLoop env ordered cells (idx + 1) (ops @ drawn)))
      else (ops, None))"
  by pat_completeness auto
termination
  by (relation "measure (\<lambda>(env, ordered, cells, idx, ops). length ordered - idx)") auto

declare flatLoop.simps [simp del]

text \<open>
  The loop over the ring images: \<^verbatim>\<open>layout.ringCells[idx]\<close> is \<^verbatim>\<open>undefined\<close> beyond the end of
  the list, and then the function throws.
\<close>

function ringLoop ::
  "'f Platform \<Rightarrow> 'f CollageImageItem list \<Rightarrow> Rect list \<Rightarrow> nat \<Rightarrow> 'f CanvasOp list
     \<Rightarrow> 'f CanvasOp list \<times> RenderError option" where
  "ringLoop env othersOrdered cells idx ops =
     (if idx < length othersOrdered then
        (if aborted env idx then (ops, Some AbortError)
         else if \<not> idx < length cells then (ops, Some NotEnoughRingCells)
         else
           (case decodeAndDraw env (othersOrdered ! idx) (cells ! idx) of
              None \<Rightarrow> (ops, Some DecodeError)
            | Some drawn \<Rightarrow> ringLoop env othersOrdered cells (idx + 1) (ops @ drawn)))
      else (ops, None))"
  by pat_completeness auto
termination
  by (relation "measure (\<lambda>(env, othersOrdered, cells, idx, ops). length othersOrdered - idx)") auto

declare ringLoop.simps [simp del]

definition renderCollageToCanvas ::
  "'f Platform \<Rightarrow> 'f CollageImageItem list \<Rightarrow> string \<Rightarrow> RenderCollageOptions
     \<Rightarrow> 'f CanvasOp list \<times> RenderError option" where
  "renderCollageToCanvas env images mainId options =
     (if length images = 0 then ([], Some NoImages)
      else
        (let sz = max 64 \<lfloor>ropt_size options\<rfloor>
         in if \<not> context2d env then ([], Some NoContext)
            else
              (let ops0 = [Resize sz,
                           FillRect (ropt_background options) 0 0 (real_of_int sz) (real_of_int sz)]
               in if \<not> ropt_useMain options then
                    (let ordered = (if ropt_shuffleOthers options
                                    then shuffleInPlace (random env) images else images);
                         cells = buildCellsFilled
                                   \<lparr>rect_x = 0, rect_y = 0, rect_width = real_of_int sz,
                                    rect_height = real_of_int sz\<rparr>
                                   (real (length ordered)) (ropt_gap options)
                     in if length cells \<noteq> length ordered then (ops0, Some NotEnoughCells)
                        else flatLoop env ordered cells 0 ops0)
                  else
                    (let main = (case find (\<lambda>i. item_id i = mainId) images of
                                   Some m \<Rightarrow> m | None \<Rightarrow> images ! 0);
                         others = filter (\<lambda>i. item_id i \<noteq> item_id main) images;
                         othersOrdered = (if ropt_shuffleOthers options
                                          then shuffleInPlace (random env) others else others);
                         layout = computeCollageLayout
                                    \<lparr>opt_size = real_of_int sz,
                                     opt_mainRatio = ropt_mainRatio options,
                                     opt_gap = ropt_gap options,
                                     opt_othersCount = real (length othersOrdered)\<rparr>
                     in case ringLoop env othersOrdered (ringCells layout) 0 ops0 of
                          (ops, Some e) \<Rightarrow> (ops, Some e)
                        | (ops, None) \<Rightarrow>
                            if aborted env (length othersOrdered) then (ops, Some AbortError)
                            else
                              (case decodeAndDraw env main (mainRect layout) of
                                 None \<Rightarrow> (ops, Some DecodeError)
                               | Some drawn \<Rightarrow> (ops @ drawn, None))))))"

section \<open>Notions used in the statements\<close>

text \<open>The four coordinates of a rectangle, and what it means for all to be non-negative integers.\<close>

definition rect_coords :: "Rect \<Rightarrow> real list" where
  "rect_coords r = [rect_x r, rect_y r, rect_width r, rect_height r]"

definition integer_rect :: "Rect \<Rightarrow> bool" where
  "integer_rect r = (\<forall>c \<in> set (rect_coords r). c \<in> \<int> \<and> 0 \<le> c)"

text \<open>A rectangle with integer coordinates, as a \<^typ>\<open>Rect\<close>.\<close>

definition int_rect :: "int \<Rightarrow> int \<Rightarrow> int \<Rightarrow> int \<Rightarrow> Rect" where
  "int_rect px py w h =
     \<lparr>rect_x = real_of_int px, rect_y = real_of_int py,
      rect_width = real_of_int w, rect_height = real_of_int h\<rparr>"

text \<open>
  The four ring regions around a centred main square of edge \<open>m\<close> with ring thickness \<open>t\<close> on a
  canvas of edge \<open>sz\<close>, in the order top, right, bottom, left.
\<close>

definition ring_regions :: "int \<Rightarrow> int \<Rightarrow> int \<Rightarrow> Region list" where
  "ring_regions sz t m =
     [\<lparr>region_name = Top, region_rect = int_rect 0 0 sz t, region_area = real_of_int (sz * t)\<rparr>,
      \<lparr>region_name = Right, region_rect = int_rect (t + m) t t m,
       region_area = real_of_int (t * m)\<rparr>,
      \<lparr>region_name = Bottom, region_rect = int_rect 0 (t + m) sz t,
       region_area = real_of_int (sz * t)\<rparr>,
      \<lparr>region_name = Left, region_rect = int_rect 0 t t m, region_area = real_of_int (t * m)\<rparr>]"

text \<open>
  The grid of the packer for \<open>n\<close> items in \<open>rows\<close> rows: row \<open>r\<close> holds \<open>\<lfloor>n / rows\<rfloor>\<close> items, and
  one more in the first \<open>n - \<lfloor>n / rows\<rfloor> * rows\<close> rows.
\<close>

definition row_count :: "int \<Rightarrow> int \<Rightarrow> nat \<Rightarrow> int" where
  "row_count n rows r = n div rows + (if int r < n mod rows then 1 else 0)"

text \<open>
  Feasibility of a candidate row count: the height left after \<open>rows - 1\<close> gaps is at least
  \<open>rows\<close>, and in every row the width left after the gaps between its cells is at least the
  number of its cells.
\<close>

definition rows_feasible :: "int \<Rightarrow> int \<Rightarrow> int \<Rightarrow> int \<Rightarrow> int \<Rightarrow> bool" where
  "rows_feasible n width height gap rows =
     (rows \<le> height - gap * (rows - 1)
      \<and> (\<forall>r \<in> {0..<nat rows}.
            row_count n rows r \<le> width - gap * (row_count n rows r - 1)))"

text \<open>
  The squareness score of a candidate: the sum over its rows of
  \<open>\<bar>ln (cellWidth / cellHeight)\<bar> * rowCount\<close>.
\<close>

definition grid_score :: "int \<Rightarrow> int \<Rightarrow> int \<Rightarrow> int \<Rightarrow> int \<Rightarrow> real" where
  "grid_score n width height gap rows =
     (\<Sum>r \<in> {0..<nat rows}.
        \<bar>ln ((real_of_int (width - gap * (row_count n rows r - 1)) / real_of_int (row_count n rows r))
              / (real_of_int (height - gap * (rows - 1)) / real_of_int rows))\<bar>
        * real_of_int (row_count n rows r))"

text \<open>
  \<open>first_best n width height gap k best\<close>: among the candidates \<open>1 \<le> c < k\<close>, \<open>best\<close> is the
  feasible one of minimal score, the smallest such in case of ties; it is \<open>None\<close> when no
  candidate below \<open>k\<close> is feasible.
\<close>

definition first_best :: "int \<Rightarrow> int \<Rightarrow> int \<Rightarrow> int \<Rightarrow> int \<Rightarrow> int option \<Rightarrow> bool" where
  "first_best n width height gap k best =
     (case best of
        None \<Rightarrow> (\<forall>c. 1 \<le> c \<and> c < k \<longrightarrow> \<not> rows_feasible n width height gap c)
      | Some b \<Rightarrow>
          1 \<le> b \<and> b < k \<and> rows_feasible n width height gap b
          \<and> (\<forall>c. 1 \<le> c \<and> c < k \<and> rows_feasible n width height gap c \<longrightarrow>
                 grid_score n width height gap b \<le> grid_score n width height gap c
                 \<and> (grid_score n width height gap c = grid_score n width height gap b \<longrightarrow> b \<le> c)))"

text \<open>
  Row-major emission, as the packer describes it: the cells of a row go left to right, \<open>x\<close>
  advancing by the cell width plus the gap; the rows go top to bottom, \<open>y\<close> advancing by the
  row height plus the gap. A row is given by its height and the widths of its cells.
\<close>

fun emit_row :: "int \<Rightarrow> int \<Rightarrow> int \<Rightarrow> int \<Rightarrow> int list \<Rightarrow> Rect list" where
  "emit_row px py gap h [] = []"
| "emit_row px py gap h (w # ws) = int_rect px py w h # emit_row (px + w + gap) py gap h ws"

fun emit_rows :: "int \<Rightarrow> int \<Rightarrow> int \<Rightarrow> (int \<times> int list) list \<Rightarrow> Rect list" where
  "emit_rows px py gap [] = []"
| "emit_rows px py gap ((h, ws) # rest) = emit_row px py gap h ws @ emit_rows px (py + h + gap) gap rest"

text \<open>
  The grid of \<open>n\<close> cells in \<open>rows\<close> rows inside the rectangle at \<open>(x0, y0)\<close> of the given width and
  height: row heights and column widths come from \<^const>\<open>distribute\<close> applied to the space left
  after the gaps.
\<close>

definition grid_rows :: "int \<Rightarrow> int \<Rightarrow> int \<Rightarrow> int \<Rightarrow> int \<Rightarrow> (int \<times> int list) list" where
  "grid_rows width height n gap rows =
     map (\<lambda>r. (distribute (real_of_int (height - gap * (rows - 1))) (real_of_int rows) ! r,
               distribute (real_of_int (width - gap * (row_count n rows r - 1)))
                 (real_of_int (row_count n rows r))))
       [0..<nat rows]"

definition grid_cells :: "int \<Rightarrow> int \<Rightarrow> int \<Rightarrow> int \<Rightarrow> int \<Rightarrow> int \<Rightarrow> int \<Rightarrow> Rect list" where
  "grid_cells x0 y0 width height n gap rows = emit_rows x0 y0 gap (grid_rows width height n gap rows)"

text \<open>The area of the intersection of two rectangles.\<close>

definition overlap_area :: "Rect \<Rightarrow> Rect \<Rightarrow> real" where
  "overlap_area a b =
     max 0 (min (rect_x a + rect_width a) (rect_x b + rect_width b) - max (rect_x a) (rect_x b))
     * max 0 (min (rect_y a + rect_height a) (rect_y b + rect_height b) - max (rect_y a) (rect_y b))"

text \<open>Every two rectangles at different positions of the list have an intersection of area 0.\<close>

fun non_overlapping :: "Rect list \<Rightarrow> bool" where
  "non_overlapping [] = True"
| "non_overlapping (a # rs) = ((\<forall>b \<in> set rs. overlap_area a b = 0) \<and> non_overlapping rs)"

text \<open>The rectangle lies in the canvas \<open>[0, size) \<times> [0, size)\<close>.\<close>

definition within_canvas :: "int \<Rightarrow> Rect \<Rightarrow> bool" where
  "within_canvas sz r =
     (0 \<le> rect_x r \<and> 0 \<le> rect_y r
      \<and> rect_x r + rect_width r \<le> real_of_int sz \<and> rect_y r + rect_height r \<le> real_of_int sz)"

text \<open>
  \<open>packed rect n g0 cells\<close>: \<open>cells\<close> is the grid of \<open>n\<close> cells in some feasible number of rows
  inside \<open>rect\<close> (its coordinates rounded), for a gap between 0 and \<open>g0\<close>.
\<close>

definition packed :: "Rect \<Rightarrow> int \<Rightarrow> int \<Rightarrow> Rect list \<Rightarrow> bool" where
  "packed rect n g0 cells =
     (\<exists>g \<in> {0..g0}. \<exists>rows \<in> {1..n}.
        rows_feasible n (round (rect_width rect)) (round (rect_height rect)) g rows
        \<and> cells = grid_cells (round (rect_x rect)) (round (rect_y rect))
                    (round (rect_width rect)) (round (rect_height rect)) n g rows)"

text \<open>
  \<open>fits rect n\<close>: the rectangle, rounded, has a width and a height of at least one pixel and at
  least \<open>n\<close> pixels in all, for \<open>n \<ge> 1\<close>.
\<close>

definition fits :: "Rect \<Rightarrow> int \<Rightarrow> bool" where
  "fits rect n =
     (1 \<le> n \<and> 1 \<le> round (rect_width rect) \<and> 1 \<le> round (rect_height rect)
      \<and> n \<le> round (rect_width rect) * round (rect_height rect))"

text \<open>The rectangle \<open>r\<close> lies inside the box at \<open>(bx, by)\<close> of width \<open>bw\<close> and height \<open>bh\<close>.\<close>

definition inside_box :: "int \<Rightarrow> int \<Rightarrow> int \<Rightarrow> int \<Rightarrow> Rect \<Rightarrow> bool" where
  "inside_box bx by bw bh r =
     (real_of_int bx \<le> rect_x r \<and> rect_x r + rect_width r \<le> real_of_int (bx + bw)
      \<and> real_of_int by \<le> rect_y r \<and> rect_y r + rect_height r \<le> real_of_int (by + bh))"

text \<open>A concrete configuration, used to exercise the statements.\<close>

definition example_options :: CollageLayoutOptions where
  "example_options = \<lparr>opt_size = 64, opt_mainRatio = 0.5, opt_gap = 0, opt_othersCount = 12\<rparr>"

text \<open>A configuration with more images than the ring has pixels.\<close>

definition crowded_options :: CollageLayoutOptions where
  "crowded_options = \<lparr>opt_size = 64, opt_mainRatio = 0.95, opt_gap = 0, opt_othersCount = 1000\<rparr>"

text \<open>The canvas operations of decoding an image and drawing it into \<open>dest\<close>, when decoding succeeds.\<close>

definition draw_ops :: "'f Platform \<Rightarrow> 'f CollageImageItem \<Rightarrow> Rect \<Rightarrow> 'f CanvasOp list" where
  "draw_ops env item dest =
     (case decodeImage env (item_file item) of
        None \<Rightarrow> []
      | Some (w, h) \<Rightarrow> drawImageCover (item_file item) w h dest)"

text \<open>A platform on which everything succeeds, two images and render options, as an example.\<close>

definition example_platform :: "nat Platform" where
  "example_platform =
     \<lparr>context2d = True, decodeImage = (\<lambda>_. Some (10, 10)), aborted = (\<lambda>_. False),
      random = (\<lambda>_. 0)\<rparr>"

definition example_images :: "nat CollageImageItem list" where
  "example_images = [\<lparr>item_id = ''a'', item_file = 1\<rparr>, \<lparr>item_id = ''b'', item_file = 2\<rparr>]"

definition example_render_options :: RenderCollageOptions where
  "example_render_options =
     \<lparr>ropt_size = 64, ropt_mainRatio = 0.5, ropt_gap = 0, ropt_background = ''white'',
      ropt_shuffleOthers = False, ropt_useMain = True\<rparr>"

section \<open>Properties\<close>

subsection \<open>Integer distribution\<close>

lemma sum_list_map_upt_indicator:
  "sum_list (map (\<lambda>i. b + (if int i < r then 1 else 0)) [0..<n]) = int n * b + min (int n) (max 0 r)"
  by (induction n) (auto simp: algebra_simps)

lemma distribute_unfold:
  assumes "1 \<le> p"
  shows "distribute tot (of_int p) =
     map (\<lambda>i. max 0 \<lfloor>tot\<rfloor> div p + (if int i < max 0 \<lfloor>tot\<rfloor> mod p then 1 else 0)) [0..<nat p]"
proof -
  have "max 1 p = p" using assms by simp
  moreover have "max 0 \<lfloor>tot\<rfloor> - max 0 \<lfloor>tot\<rfloor> div p * p = max 0 \<lfloor>tot\<rfloor> mod p"
    by (simp add: minus_div_mult_eq_mod)
  ultimately show ?thesis
    by (simp add: distribute_def Let_def floor_divide_of_int_eq)
qed

lemma distribute_length: "1 \<le> p \<Longrightarrow> length (distribute tot (of_int p)) = nat p"
  by (simp add: distribute_unfold)

lemma distribute_sum:
  assumes "1 \<le> p"
  shows "sum_list (distribute tot (of_int p)) = max 0 \<lfloor>tot\<rfloor>"
proof -
  let ?t = "max 0 \<lfloor>tot\<rfloor>"
  have r: "0 \<le> ?t mod p" "?t mod p < p" using assms by simp_all
  have "sum_list (distribute tot (of_int p)) = int (nat p) * (?t div p) + min (int (nat p)) (max 0 (?t mod p))"
    unfolding distribute_unfold[OF assms] by (rule sum_list_map_upt_indicator)
  also have "\<dots> = p * (?t div p) + ?t mod p" using assms r by simp
  also have "\<dots> = ?t" by simp
  finally show ?thesis .
qed

text \<open>
  C6. For \<open>total \<ge> 0\<close> and an integer \<open>parts \<ge> 1\<close>, \<^verbatim>\<open>distribute(total, parts)\<close> returns exactly
  \<open>parts\<close> non-negative integers whose sum is \<open>\<lfloor>total\<rfloor>\<close>; every entry is \<open>\<lfloor>total / parts\<rfloor>\<close> or
  that plus one, and the larger entries come first (the list never increases).
\<close>

theorem distribute_spec:
  assumes "0 \<le> tot" and "1 \<le> p"
  shows "length (distribute tot (of_int p)) = nat p
       \<and> sum_list (distribute tot (of_int p)) = \<lfloor>tot\<rfloor>
       \<and> (\<forall>e \<in> set (distribute tot (of_int p)).
             0 \<le> e \<and> (e = \<lfloor>tot / real_of_int p\<rfloor> \<or> e = \<lfloor>tot / real_of_int p\<rfloor> + 1))
       \<and> (\<forall>i j. i \<le> j \<and> j < nat p \<longrightarrow>
             distribute tot (of_int p) ! j \<le> distribute tot (of_int p) ! i)"
proof -
  have t: "max 0 \<lfloor>tot\<rfloor> = \<lfloor>tot\<rfloor>" "0 \<le> \<lfloor>tot\<rfloor>" using assms(1) by simp_all
  have d: "0 \<le> \<lfloor>tot\<rfloor> div p" using t(2) assms(2) by (simp add: pos_imp_zdiv_nonneg_iff)
  have q: "\<lfloor>tot / real_of_int p\<rfloor> = \<lfloor>tot\<rfloor> div p"
    using assms(2) by (intro floor_divide_real_eq_div) simp
  have "length (distribute tot (of_int p)) = nat p"
    by (rule distribute_length[OF assms(2)])
  moreover have "sum_list (distribute tot (of_int p)) = \<lfloor>tot\<rfloor>"
    using distribute_sum[OF assms(2), of tot] t by simp
  moreover have "\<forall>e \<in> set (distribute tot (of_int p)).
      0 \<le> e \<and> (e = \<lfloor>tot / real_of_int p\<rfloor> \<or> e = \<lfloor>tot / real_of_int p\<rfloor> + 1)"
    unfolding q using d by (auto simp: distribute_unfold[OF assms(2)] t)
  moreover have "\<forall>i j. i \<le> j \<and> j < nat p \<longrightarrow>
      distribute tot (of_int p) ! j \<le> distribute tot (of_int p) ! i"
    by (auto simp: distribute_unfold[OF assms(2)] t)
  ultimately show ?thesis by blast
qed

theorem distribute_spec_witness:
  "((0::real) \<le> 7 \<and> (1::int) \<le> 3)
   \<and> distribute 7 (of_int 3) = [3, 2, 2]
   \<and> length (distribute 7 (of_int 3)) = nat 3 \<and> sum_list (distribute 7 (of_int 3)) = \<lfloor>7::real\<rfloor>
   \<and> \<lfloor>(7::real) / real_of_int 3\<rfloor> = 2"
  using distribute_spec[of 7 3] by (simp add: distribute_def Let_def upt_rec)

subsection \<open>Region partitioner\<close>

lemma js_rem_2_iff: "js_rem a 2 = 0 \<longleftrightarrow> even a"
  by (auto simp: js_rem_def sgn_if even_iff_mod_2_eq_zero abs_if)

lemma computeRegions_eq:
  assumes "1 \<le> sz"
    and "m1 = clamp (round (real_of_int sz * clamp ratio 0.05 0.95)) 1 sz"
    and "m = (if even (sz - m1) then m1 else if 2 \<le> m1 then m1 - 1 else m1 + 1)"
    and "t = (sz - m) div 2"
  shows "1 \<le> m \<and> m \<le> sz \<and> even (sz - m) \<and> 0 \<le> t \<and> 2 * t = sz - m"
    and "computeRegions sz ratio = (int_rect t t m m, ring_regions sz t m)"
proof -
  define m' where "m' = (if js_rem (sz - m1) 2 \<noteq> 0 then
               (let down = m1 - 1; up = m1 + 1
                in if down \<ge> 1 \<and> js_rem (sz - down) 2 = 0 then down
                   else if up \<le> sz \<and> js_rem (sz - up) 2 = 0 then up
                   else m1)
             else m1)"
  have m1: "1 \<le> m1" "m1 \<le> sz" using assms(1) by (auto simp: assms(2) clamp_def)
  have "m' = m"
    using m1 unfolding m'_def assms(3) Let_def js_rem_2_iff by (auto; presburger)
  have m: "1 \<le> m \<and> m \<le> sz \<and> even (sz - m)"
    using m1 unfolding assms(3) by (auto; presburger)
  have t: "0 \<le> t" "2 * t = sz - m" using m by (auto simp: assms(4))
  show "1 \<le> m \<and> m \<le> sz \<and> even (sz - m) \<and> 0 \<le> t \<and> 2 * t = sz - m"
    using m t by blast
  have rt: "max 0 (real_of_int (sz - m) / 2) = of_int t"
  proof -
    have "real_of_int (sz - m) = 2 * of_int t" using t(2) by (metis of_int_mult of_int_numeral)
    then show ?thesis using t(1) by simp
  qed
  show "computeRegions sz ratio = (int_rect t t m m, ring_regions sz t m)"
    unfolding computeRegions_def Let_def assms(2)[symmetric]
    unfolding m'_def[symmetric, unfolded Let_def] \<open>m' = m\<close> rt
    by (simp add: int_rect_def ring_regions_def)
qed

lemma computeRegions_shape:
  assumes "1 \<le> sz"
  shows "\<exists>m t. 1 \<le> m \<and> m \<le> sz \<and> even (sz - m) \<and> 0 \<le> t \<and> 2 * t = sz - m
           \<and> computeRegions sz ratio = (int_rect t t m m, ring_regions sz t m)"
  using computeRegions_eq[OF assms refl refl refl, of ratio] by blast

lemma integer_rect_int_rect:
  "0 \<le> px \<Longrightarrow> 0 \<le> py \<Longrightarrow> 0 \<le> w \<Longrightarrow> 0 \<le> h \<Longrightarrow> integer_rect (int_rect px py w h)"
  by (simp add: integer_rect_def int_rect_def rect_coords_def)

text \<open>
  C9. For every integer \<open>size \<ge> 64\<close> and every main ratio, the main square \<open>m\<close> computed by
  \<^verbatim>\<open>computeRegions\<close> leaves an even \<open>size - m\<close>; the ring thickness is the integer
  \<open>t = (size - m) / 2\<close>, the main rectangle is the square of edge \<open>m\<close> at \<open>(t, t)\<close>, the regions
  are the four ring rectangles derived from \<open>t\<close> and \<open>m\<close>, and every coordinate of these five
  rectangles is a non-negative integer.
\<close>

theorem computeRegions_integer_ring:
  assumes "64 \<le> sz"
  shows "\<exists>m t. even (sz - m) \<and> 1 \<le> m \<and> m \<le> sz \<and> 0 \<le> t
             \<and> real_of_int t = real_of_int (sz - m) / 2
             \<and> fst (computeRegions sz ratio) = int_rect t t m m
             \<and> snd (computeRegions sz ratio) = ring_regions sz t m
             \<and> (\<forall>r \<in> set (fst (computeRegions sz ratio)
                             # map region_rect (snd (computeRegions sz ratio))).
                   integer_rect r)"
proof -
  from assms have "1 \<le> sz" by simp
  from computeRegions_shape[OF this, of ratio] obtain m t where
    mt: "1 \<le> m" "m \<le> sz" "even (sz - m)" "0 \<le> t" "2 * t = sz - m"
    and eq: "computeRegions sz ratio = (int_rect t t m m, ring_regions sz t m)"
    by blast
  have half: "real_of_int t = real_of_int (sz - m) / 2"
  proof -
    have "real_of_int (sz - m) = 2 * of_int t" using mt(5) by (metis of_int_mult of_int_numeral)
    then show ?thesis by simp
  qed
  have ints: "\<forall>r \<in> set (int_rect t t m m # map region_rect (ring_regions sz t m)). integer_rect r"
    using mt assms by (simp add: ring_regions_def integer_rect_int_rect)
  show ?thesis
    using mt half ints unfolding eq fst_conv snd_conv by blast
qed

theorem computeRegions_integer_ring_witness:
  "(64::int) \<le> 64
   \<and> computeRegions 64 0.95 = (int_rect 2 2 60 60, ring_regions 64 2 60)
   \<and> (\<exists>m t. even (64 - m) \<and> 1 \<le> m \<and> m \<le> 64 \<and> 0 \<le> t
             \<and> real_of_int t = real_of_int (64 - m) / 2
             \<and> fst (computeRegions 64 0.95) = int_rect t t m m
             \<and> snd (computeRegions 64 0.95) = ring_regions 64 t m
             \<and> (\<forall>r \<in> set (fst (computeRegions 64 0.95)
                             # map region_rect (snd (computeRegions 64 0.95))).
                   integer_rect r))"
proof -
  have h: "(64::int) \<le> 64" by simp
  have m1: "(61::int) = clamp (round (real_of_int 64 * clamp 0.95 0.05 0.95)) 1 64"
    by (simp add: clamp_def round_def)
  have m: "(60::int) = (if even (64 - 61 :: int) then 61 else if 2 \<le> (61::int) then 61 - 1 else 61 + 1)"
    by simp
  have t: "(2::int) = (64 - 60) div 2" by simp
  have e: "computeRegions 64 0.95 = (int_rect 2 2 60 60, ring_regions 64 2 60)"
    by (rule computeRegions_eq(2)[OF _ m1 m t]) simp
  show ?thesis using h e computeRegions_integer_ring[OF h, of "0.95"] by blast
qed

subsection \<open>Count allocator\<close>

lemma foldl_add_sum_list: "foldl (\<lambda>s r. s + f r) a xs = a + sum_list (map f xs)"
  for a :: "'a::comm_monoid_add"
  by (induction xs arbitrary: a) (simp_all add: add.assoc)

lemma allocateCounts_degenerate:
  "max 0 \<lfloor>tot\<rfloor> = 0 \<or> sum_list (map region_area regions) \<le> 0
     \<Longrightarrow> allocateCounts tot regions = (\<lambda>_. 0)"
  by (simp add: allocateCounts_def foldl_add_sum_list)

lemma allocateCounts_patched:
  assumes "max 0 \<lfloor>tot\<rfloor> \<noteq> 0" and "0 < sum_list (map region_area regions)"
  shows "\<exists>out. allocateCounts tot regions =
           (if out Top + out Right + out Bottom + out Left \<noteq> max 0 \<lfloor>tot\<rfloor>
            then out(Top := out Top + (max 0 \<lfloor>tot\<rfloor> - (out Top + out Right + out Bottom + out Left)))
            else out)"
proof -
  have c: "(max 0 \<lfloor>tot\<rfloor> = 0 \<or> foldl (\<lambda>s r. s + region_area r) 0 regions \<le> 0) = False"
    using assms by (simp add: foldl_add_sum_list)
  show ?thesis
    unfolding allocateCounts_def Let_def c
    by (simp only: if_False foldl.simps add_0) (rule exI, rule refl)
qed

text \<open>
  C2. For every non-negative integer \<open>total\<close> and any four regions whose areas add up to a
  positive number, the counts that \<^verbatim>\<open>allocateCounts\<close> gives to top, right, bottom and left sum
  to exactly \<open>total\<close>; when \<open>total = 0\<close> or the combined area is not positive, every region gets 0.
\<close>

theorem allocateCounts_sum:
  "(0 \<le> n \<and> length regions = 4 \<and> 0 < sum_list (map region_area regions)
      \<longrightarrow> allocateCounts (real_of_int n) regions Top + allocateCounts (real_of_int n) regions Right
        + allocateCounts (real_of_int n) regions Bottom + allocateCounts (real_of_int n) regions Left = n)
   \<and> (n = 0 \<or> sum_list (map region_area regions) \<le> 0
      \<longrightarrow> (\<forall>name. allocateCounts (real_of_int n) regions name = 0))"
proof (intro conjI impI)
  assume a: "0 \<le> n \<and> length regions = 4 \<and> 0 < sum_list (map region_area regions)"
  show "allocateCounts (real_of_int n) regions Top + allocateCounts (real_of_int n) regions Right
        + allocateCounts (real_of_int n) regions Bottom + allocateCounts (real_of_int n) regions Left = n"
  proof (cases "n = 0")
    case True
    then show ?thesis by (simp add: allocateCounts_degenerate)
  next
    case False
    with a have "max 0 \<lfloor>real_of_int n\<rfloor> \<noteq> 0" by simp
    from allocateCounts_patched[OF this] a obtain out where
      "allocateCounts (real_of_int n) regions =
           (if out Top + out Right + out Bottom + out Left \<noteq> max 0 \<lfloor>real_of_int n\<rfloor>
            then out(Top := out Top + (max 0 \<lfloor>real_of_int n\<rfloor> - (out Top + out Right + out Bottom + out Left)))
            else out)" by blast
    then show ?thesis using a by (simp split: if_splits)
  qed
next
  assume "n = 0 \<or> sum_list (map region_area regions) \<le> 0"
  then show "\<forall>name. allocateCounts (real_of_int n) regions name = 0"
    by (auto simp: allocateCounts_degenerate)
qed

theorem allocateCounts_sum_witness:
  "((0::int) \<le> 13 \<and> length (ring_regions 100 25 50) = 4
      \<and> 0 < sum_list (map region_area (ring_regions 100 25 50)))
   \<and> map (allocateCounts 13 (ring_regions 100 25 50)) [Top, Right, Bottom, Left] = [5, 2, 4, 2]
   \<and> allocateCounts 13 (ring_regions 100 25 50) Top + allocateCounts 13 (ring_regions 100 25 50) Right
        + allocateCounts 13 (ring_regions 100 25 50) Bottom
        + allocateCounts 13 (ring_regions 100 25 50) Left = 13
   \<and> (\<forall>name. allocateCounts 0 (ring_regions 100 25 50) name = 0)"
proof -
  have h: "(0::int) \<le> 13 \<and> length (ring_regions 100 25 50) = 4
      \<and> 0 < sum_list (map region_area (ring_regions 100 25 50))"
    by (simp add: ring_regions_def)
  have v: "map (allocateCounts 13 (ring_regions 100 25 50)) [Top, Right, Bottom, Left] = [5, 2, 4, 2]"
    by (simp add: allocateCounts_def ring_regions_def Let_def js_rem_def bumpLoop.simps)
  show ?thesis
    using h v allocateCounts_sum[of 13 "ring_regions 100 25 50"]
      allocateCounts_sum[of 0 "ring_regions 100 25 50"]
    by simp
qed

subsection \<open>Choice of the row count\<close>

lemma scoreRows_eq:
  assumes "rowHeight \<noteq> 0"
  shows "scoreRows rows base extra width gap rowHeight r score =
     (if \<forall>k \<in> {r..<nat rows}. base + (if int k < extra then 1 else 0)
              \<le> width - gap * (base + (if int k < extra then 1 else 0) - 1)
      then Some (score + (\<Sum>k \<in> {r..<nat rows}.
              \<bar>ln ((real_of_int (width - gap * (base + (if int k < extra then 1 else 0) - 1))
                     / real_of_int (base + (if int k < extra then 1 else 0))) / rowHeight)\<bar>
              * real_of_int (base + (if int k < extra then 1 else 0))))
      else None)"
  using assms
proof (induction rows base extra width gap rowHeight r score rule: scoreRows.induct)
  case (1 rows base extra width gap rowHeight r score)
  let ?rc = "\<lambda>k. base + (if int k < extra then 1 else 0)"
  show ?case
  proof (cases "int r < rows")
    case False
    then have "{r..<nat rows} = {}" by auto
    with False show ?thesis by (subst scoreRows.simps) simp
  next
    case True
    then have split: "{r..<nat rows} = insert r {Suc r..<nat rows}" by auto
    show ?thesis
    proof (cases "width - gap * (?rc r - 1) < ?rc r")
      case bad: True
      then have "\<not> (\<forall>k \<in> {r..<nat rows}. ?rc k \<le> width - gap * (?rc k - 1))"
        unfolding split by (simp del: One_nat_def)
      with True bad show ?thesis by (subst scoreRows.simps) (simp add: Let_def)
    next
      case ok: False
      have ih: "scoreRows rows base extra width gap rowHeight (r + 1)
                 (score + \<bar>ln ((real_of_int (width - gap * (?rc r - 1)) / real_of_int (?rc r)) / rowHeight)\<bar> * real_of_int (?rc r)) =
         (if \<forall>k \<in> {r + 1..<nat rows}. ?rc k \<le> width - gap * (?rc k - 1)
          then Some ((score + \<bar>ln ((real_of_int (width - gap * (?rc r - 1)) / real_of_int (?rc r)) / rowHeight)\<bar> * real_of_int (?rc r)) + (\<Sum>k \<in> {r + 1..<nat rows}.
              \<bar>ln ((real_of_int (width - gap * (?rc k - 1)) / real_of_int (?rc k)) / rowHeight)\<bar>
              * real_of_int (?rc k)))
          else None)"
        using "1.IH"[OF True refl refl _ refl refl] ok "1.prems" by simp
      have "scoreRows rows base extra width gap rowHeight r score =
            scoreRows rows base extra width gap rowHeight (r + 1)
                 (score + \<bar>ln ((real_of_int (width - gap * (?rc r - 1)) / real_of_int (?rc r)) / rowHeight)\<bar> * real_of_int (?rc r))"
        using True ok "1.prems" by (subst scoreRows.simps) (simp add: Let_def)
      also note ih
      finally show ?thesis
        using ok unfolding split by (simp add: add.assoc)
    qed
  qed
qed

lemma scoreRows_grid:
  assumes "1 \<le> rows" and "rows \<le> height - gap * (rows - 1)"
  shows "scoreRows rows (n div rows) (n mod rows) width gap
           (real_of_int (height - gap * (rows - 1)) / real_of_int rows) 0 0 =
         (if rows_feasible n width height gap rows
          then Some (grid_score n width height gap rows) else None)"
proof -
  have "height - gap * (rows - 1) \<noteq> 0" "rows \<noteq> 0" using assms by linarith+
  then have "real_of_int (height - gap * (rows - 1)) / real_of_int rows \<noteq> 0"
    by (simp only: divide_eq_0_iff of_int_eq_0_iff) simp
  from scoreRows_eq[OF this, of rows "n div rows" "n mod rows" width gap 0 0] show ?thesis
    using assms(2) unfolding rows_feasible_def grid_score_def row_count_def by simp
qed

lemma first_best_extend:
  assumes "first_best n w h g k best" and "k \<le> k'"
    and "\<And>c. k \<le> c \<Longrightarrow> c < k' \<Longrightarrow> \<not> rows_feasible n w h g c"
  shows "first_best n w h g k' best"
proof (cases best)
  case None
  with assms show ?thesis
    unfolding first_best_def by (auto simp: not_less) (meson not_less)
next
  case (Some b)
  with assms show ?thesis
    unfolding first_best_def by (auto simp: not_less) (meson not_less)+
qed



lemma rowsLoop_done: "\<not> rows \<le> maxRows \<Longrightarrow> rowsLoop n width height gap maxRows rows bestRows bestScore = bestRows"
  by (subst rowsLoop.simps) simp

lemma rowsLoop_unfold:
  assumes "1 \<le> rows" and "rows \<le> n" and "rows \<le> maxRows"
  shows "rowsLoop n width height gap maxRows rows bestRows bestScore =
     (if height - gap * (rows - 1) < rows then bestRows
      else if rows_feasible n width height gap rows then
        (if score_less (grid_score n width height gap rows) bestScore
         then rowsLoop n width height gap maxRows (rows + 1) (Some rows)
                (Some (grid_score n width height gap rows))
         else rowsLoop n width height gap maxRows (rows + 1) bestRows bestScore)
      else rowsLoop n width height gap maxRows (rows + 1) bestRows bestScore)"
proof (cases "height - gap * (rows - 1) < rows")
  case True
  with assms(3) show ?thesis by (subst rowsLoop.simps) (simp add: Let_def)
next
  case go: False
  have base: "\<lfloor>real_of_int n / real_of_int rows\<rfloor> = n div rows"
    by (simp add: floor_divide_of_int_eq)
  have "0 < rows" using assms by linarith
  with assms(2) have "0 < n div rows" by (simp add: pos_imp_zdiv_pos_iff)
  then have pos: "(n div rows \<le> 0) = False" by simp
  have extra: "n - n div rows * rows = n mod rows"
    by (simp add: minus_div_mult_eq_mod)
  have sc: "scoreRows rows (n div rows) (n mod rows) width gap
           (real_of_int (height - gap * (rows - 1)) / real_of_int rows) 0 0 =
         (if rows_feasible n width height gap rows
          then Some (grid_score n width height gap rows) else None)"
    using go assms(1) by (intro scoreRows_grid) simp_all
  have go': "(height - gap * (rows - 1) < rows) = False" using go by simp
  have mx: "(rows \<le> maxRows) = True" using assms(3) by simp
  show ?thesis
  proof (cases "rows_feasible n width height gap rows")
    case True
    then have f: "rows_feasible n width height gap rows = True" by simp
    show ?thesis
      by (subst rowsLoop.simps)
        (simp only: Let_def base extra sc go' pos mx f if_True if_False option.case)
  next
    case False
    then have f: "rows_feasible n width height gap rows = False" by simp
    show ?thesis
      by (subst rowsLoop.simps)
        (simp only: Let_def base extra sc go' pos mx f if_True if_False option.case)
  qed
qed

lemma rowsLoop_first_best:
  assumes "1 \<le> n" and "0 \<le> gap" and "maxRows \<le> n" and "1 \<le> rows" and "rows \<le> maxRows + 1"
    and "first_best n width height gap rows bestRows"
    and "bestScore = map_option (grid_score n width height gap) bestRows"
  shows "first_best n width height gap (maxRows + 1)
           (rowsLoop n width height gap maxRows rows bestRows bestScore)"
  using assms(4-7)
proof (induction "nat (maxRows + 1 - rows)" arbitrary: rows bestRows bestScore)
  case 0
  then have "rows = maxRows + 1" by simp
  with "0.prems" show ?case by (simp add: rowsLoop_done)
next
  case (Suc k)
  note fb = \<open>first_best n width height gap rows bestRows\<close>
  from Suc.hyps(2) have le: "rows \<le> maxRows" by linarith
  with assms(3) have len: "rows \<le> n" by simp
  note unf = rowsLoop_unfold[OF \<open>1 \<le> rows\<close> len le, of width height gap bestRows bestScore]
  have k: "k = nat (maxRows + 1 - (rows + 1))" using Suc.hyps(2) by linarith
  have nxt: "1 \<le> rows + 1" "rows + 1 \<le> maxRows + 1" using le \<open>1 \<le> rows\<close> by simp_all
  let ?s = "grid_score n width height gap rows"
  show ?case
  proof (cases "height - gap * (rows - 1) < rows")
    case stop: True
    have nf: "\<not> rows_feasible n width height gap c" if "rows \<le> c" for c
    proof -
      have "gap * (rows - 1) \<le> gap * (c - 1)"
        using that \<open>0 \<le> gap\<close> by (intro mult_left_mono) simp_all
      with stop that show ?thesis by (simp add: rows_feasible_def)
    qed
    have "first_best n width height gap (maxRows + 1) bestRows"
    proof (rule first_best_extend[OF fb])
      show "rows \<le> maxRows + 1" using le by simp
      show "\<not> rows_feasible n width height gap c" if "rows \<le> c" for c
        using nf[OF that] .
    qed
    with stop show ?thesis unfolding unf by simp
  next
    case go: False
    show ?thesis
    proof (cases "rows_feasible n width height gap rows")
      case infeasible: False
      have fb': "first_best n width height gap (rows + 1) bestRows"
      proof (rule first_best_extend[OF fb])
        show "rows \<le> rows + 1" by simp
        show "\<not> rows_feasible n width height gap c" if "rows \<le> c" "c < rows + 1" for c
        proof -
          from that have "c = rows" by simp
          with infeasible show ?thesis by simp
        qed
      qed
      from Suc.hyps(1)[OF k nxt fb' Suc.prems(4)] go infeasible
      show ?thesis unfolding unf by simp
    next
      case feasible: True
      show ?thesis
      proof (cases "score_less ?s bestScore")
        case better: True
        have lt: "?s < grid_score n width height gap b" if "bestRows = Some b" for b
          using better Suc.prems(4) that by (simp add: score_less_def)
        have fb': "first_best n width height gap (rows + 1) (Some rows)"
          unfolding first_best_def option.case
        proof (intro conjI allI impI)
          fix c assume c: "1 \<le> c \<and> c < rows + 1 \<and> rows_feasible n width height gap c"
          have old: "\<exists>b. bestRows = Some b \<and> grid_score n width height gap b \<le> grid_score n width height gap c"
            if "c < rows"
            using fb c that by (cases bestRows) (auto simp: first_best_def)
          show "?s \<le> grid_score n width height gap c"
          proof (cases "c = rows")
            case False
            with c have "c < rows" by simp
            from old[OF this] lt show ?thesis by force
          qed simp
          show "rows \<le> c" if "grid_score n width height gap c = ?s"
          proof (rule ccontr)
            assume "\<not> rows \<le> c"
            then have "c < rows" by simp
            from old[OF this] lt that show False by force
          qed
        qed (use feasible \<open>1 \<le> rows\<close> in simp_all)
        from Suc.hyps(1)[OF k nxt fb', of "Some ?s"] go feasible better
        show ?thesis unfolding unf by simp
      next
        case worse: False
        then obtain b where b: "bestRows = Some b" "grid_score n width height gap b \<le> ?s"
          using Suc.prems(4) by (cases bestRows) (auto simp: score_less_def)
        have fbb: "1 \<le> b" "b < rows" "rows_feasible n width height gap b"
          "\<And>c. 1 \<le> c \<Longrightarrow> c < rows \<Longrightarrow> rows_feasible n width height gap c \<Longrightarrow>
                 grid_score n width height gap b \<le> grid_score n width height gap c
                 \<and> (grid_score n width height gap c = grid_score n width height gap b \<longrightarrow> b \<le> c)"
          using fb unfolding first_best_def b(1) option.case by blast+
        have fb': "first_best n width height gap (rows + 1) bestRows"
          unfolding first_best_def b(1) option.case
        proof (intro conjI allI impI)
          fix c assume c: "1 \<le> c \<and> c < rows + 1 \<and> rows_feasible n width height gap c"
          show "grid_score n width height gap b \<le> grid_score n width height gap c"
          proof (cases "c = rows")
            case True
            with b(2) show ?thesis by simp
          next
            case False
            with c have "c < rows" by simp
            with fbb(4) c show ?thesis by blast
          qed
          show "b \<le> c" if "grid_score n width height gap c = grid_score n width height gap b"
          proof (cases "c = rows")
            case True
            with fbb(2) show ?thesis by simp
          next
            case False
            with c have "c < rows" by simp
            with fbb(4) c that show ?thesis by blast
          qed
        qed (use fbb in simp_all)
        from Suc.hyps(1)[OF k nxt fb' Suc.prems(4)] go feasible worse
        show ?thesis unfolding unf by simp
      qed
    qed
  qed
qed

lemma computeBestRowsNoWaste_first_best:
  assumes "1 \<le> n" and "1 \<le> width" and "1 \<le> height" and "0 \<le> gap"
  shows "first_best n width height gap (min n height + 1)
           (computeBestRowsNoWaste (real_of_int n) (real_of_int width) (real_of_int height)
              (real_of_int gap))"
proof -
  have eq: "computeBestRowsNoWaste (real_of_int n) (real_of_int width) (real_of_int height)
              (real_of_int gap) = rowsLoop n width height gap (min n height) 1 None None"
    using assms by (simp add: computeBestRowsNoWaste_def Let_def max_def)
  have "first_best n width height gap 1 None" unfolding first_best_def by auto
  then show ?thesis
    unfolding eq using assms by (intro rowsLoop_first_best) simp_all
qed



subsection \<open>Cell emission\<close>

lemma length_emit_row: "length (emit_row px py gap h ws) = length ws"
  by (induction ws arbitrary: px) simp_all

lemma colsLoop_done:
  "\<not> int c < rowCount \<Longrightarrow> colsLoop n gap colWidths rowHeight y rowCount c x cells = cells"
  by (subst colsLoop.simps) simp

lemma colsLoop_emit_row:
  assumes "length colWidths = nat rowCount" and "c \<le> nat rowCount"
    and "int (length cells) + (rowCount - int c) \<le> n"
  shows "colsLoop n gap colWidths rowHeight y rowCount c x cells =
           cells @ emit_row x y gap rowHeight (drop c colWidths)"
  using assms(2,3)
proof (induction "nat rowCount - c" arbitrary: c x cells)
  case 0
  then have "\<not> int c < rowCount" by linarith
  moreover have "drop c colWidths = []" using 0 assms(1) by simp
  ultimately show ?case by (simp add: colsLoop_done)
next
  case (Suc k)
  then have lt: "int c < rowCount" by linarith
  then have c: "c < length colWidths" using assms(1) by linarith
  let ?cell = "\<lparr>rect_x = real_of_int x, rect_y = real_of_int y,
                 rect_width = real_of_int (colWidths ! c), rect_height = real_of_int rowHeight\<rparr>"
  have dr: "drop c colWidths = colWidths ! c # drop (Suc c) colWidths"
    using c by (simp add: Cons_nth_drop_Suc)
  show ?case
  proof (cases "int (length (cells @ [?cell])) = n")
    case True
    with Suc.prems lt have "Suc c = nat rowCount" by simp
    then have "drop (Suc c) colWidths = []" using assms(1) by simp
    with True lt show ?thesis
      by (subst colsLoop.simps) (simp add: Let_def dr int_rect_def)
  next
    case False
    have k: "k = nat rowCount - Suc c" using Suc.hyps(2) by linarith
    have "colsLoop n gap colWidths rowHeight y rowCount (Suc c) (x + colWidths ! c + gap)
            (cells @ [?cell]) =
          (cells @ [?cell]) @ emit_row (x + colWidths ! c + gap) y gap rowHeight (drop (Suc c) colWidths)"
      using Suc.prems lt by (intro Suc.hyps(1)[OF k]) simp_all
    with False lt show ?thesis
      by (subst colsLoop.simps) (simp add: Let_def dr int_rect_def)
  qed
qed

lemma rowsEmit_done:
  "\<not> int r < rows \<Longrightarrow> rowsEmit n gap x0 width rows rowCounts rowHeights r y cells = Some cells"
  by (subst rowsEmit.simps) simp

lemma rowsEmit_emit_rows:
  assumes "\<forall>k \<in> {r..<nat rows}. 1 \<le> rowCounts ! k \<and> rowCounts ! k \<le> width - gap * (rowCounts ! k - 1)"
    and "int (length cells) + (\<Sum>k \<in> {r..<nat rows}. rowCounts ! k) = n"
    and "r \<le> nat rows"
  shows "rowsEmit n gap x0 width rows rowCounts rowHeights r y cells =
     Some (cells @ emit_rows x0 y gap
        (map (\<lambda>k. (rowHeights ! k,
                    distribute (real_of_int (width - gap * (rowCounts ! k - 1)))
                      (real_of_int (rowCounts ! k))))
           [r..<nat rows]))"
  using assms
proof (induction "nat rows - r" arbitrary: r y cells)
  case 0
  then have "\<not> int r < rows" "[r..<nat rows] = []" by simp_all
  then show ?case by (simp add: rowsEmit_done)
next
  case (Suc j)
  then have lt: "int r < rows" and r: "r < nat rows" by linarith+
  let ?rc = "rowCounts ! r"
  let ?ws = "distribute (real_of_int (width - gap * (?rc - 1))) (real_of_int ?rc)"
  let ?cells' = "cells @ emit_row x0 y gap (rowHeights ! r) ?ws"
  have rc: "1 \<le> ?rc" "?rc \<le> width - gap * (?rc - 1)" using Suc.prems(1) r by simp_all
  have len: "length ?ws = nat ?rc" using rc(1) by (rule distribute_length)
  have split: "{r..<nat rows} = insert r {Suc r..<nat rows}" using r by auto
  have sum: "(\<Sum>k \<in> {r..<nat rows}. rowCounts ! k) = ?rc + (\<Sum>k \<in> {Suc r..<nat rows}. rowCounts ! k)"
    unfolding split by simp
  have each: "1 \<le> rowCounts ! k" if "k \<in> {Suc r..<nat rows}" for k
    using Suc.prems(1) that by simp
  have rest_nonneg: "0 \<le> (\<Sum>k \<in> {Suc r..<nat rows}. rowCounts ! k)"
  proof (rule sum_nonneg)
    fix k assume "k \<in> {Suc r..<nat rows}"
    from each[OF this] show "0 \<le> rowCounts ! k" by simp
  qed
  have cl: "colsLoop n gap ?ws (rowHeights ! r) y ?rc 0 x0 cells = ?cells'"
    using colsLoop_emit_row[OF len, of 0 cells n gap "rowHeights ! r" y x0]
      Suc.prems(2) sum rest_nonneg by simp
  have len': "int (length ?cells') = int (length cells) + ?rc"
    unfolding length_append length_emit_row len using rc(1) by simp
  have upt: "[r..<nat rows] = r # [Suc r..<nat rows]" using r by (simp add: upt_conv_Cons)
  show ?case
  proof (cases "int (length ?cells') = n")
    case True
    with len' Suc.prems(2) sum have z: "(\<Sum>k \<in> {Suc r..<nat rows}. rowCounts ! k) = 0" by simp
    have "{Suc r..<nat rows} = {}"
    proof (rule ccontr)
      assume ne: "{Suc r..<nat rows} \<noteq> {}"
      have "0 < (\<Sum>k \<in> {Suc r..<nat rows}. rowCounts ! k)"
      proof (rule sum_pos)
        fix k assume "k \<in> {Suc r..<nat rows}"
        from each[OF this] show "0 < rowCounts ! k" by simp
      qed (use ne in simp_all)
      with z show False by simp
    qed
    then have "[Suc r..<nat rows] = []" by simp
    with True lt rc show ?thesis
      by (subst rowsEmit.simps, unfold Let_def cl) (simp add: upt)
  next
    case False
    have j: "j = nat rows - Suc r" using Suc.hyps(2) by linarith
    have "rowsEmit n gap x0 width rows rowCounts rowHeights (Suc r) (y + rowHeights ! r + gap) ?cells' =
       Some (?cells' @ emit_rows x0 (y + rowHeights ! r + gap) gap
        (map (\<lambda>k. (rowHeights ! k,
                    distribute (real_of_int (width - gap * (rowCounts ! k - 1)))
                      (real_of_int (rowCounts ! k))))
           [Suc r..<nat rows]))"
    proof (rule Suc.hyps(1)[OF j])
      show "\<forall>k \<in> {Suc r..<nat rows}. 1 \<le> rowCounts ! k \<and> rowCounts ! k \<le> width - gap * (rowCounts ! k - 1)"
        using Suc.prems(1) by simp
      show "int (length ?cells') + (\<Sum>k \<in> {Suc r..<nat rows}. rowCounts ! k) = n"
        using len' Suc.prems(2) sum by simp
      show "Suc r \<le> nat rows" using r by simp
    qed
    with False lt rc show ?thesis
      by (subst rowsEmit.simps, unfold Let_def cl) (simp add: upt)
  qed
qed

lemma length_emit_rows:
  "length (emit_rows px py gap rs) = sum_list (map (\<lambda>row. length (snd row)) rs)"
  by (induction rs arbitrary: py) (auto simp: length_emit_row)

lemma row_count_pos: "1 \<le> rows \<Longrightarrow> rows \<le> n \<Longrightarrow> 1 \<le> row_count n rows r"
proof -
  assume "1 \<le> rows" "rows \<le> n"
  then have "0 < n div rows" by (simp add: pos_imp_zdiv_pos_iff)
  then show ?thesis by (simp add: row_count_def)
qed

lemma sum_list_row_count:
  assumes "1 \<le> rows"
  shows "sum_list (map (row_count n rows) [0..<nat rows]) = n"
proof -
  have r: "0 \<le> n mod rows" "n mod rows < rows" using assms by simp_all
  have "sum_list (map (row_count n rows) [0..<nat rows]) =
        int (nat rows) * (n div rows) + min (int (nat rows)) (max 0 (n mod rows))"
    unfolding row_count_def by (rule sum_list_map_upt_indicator)
  also have "\<dots> = rows * (n div rows) + n mod rows" using assms r by simp
  finally show ?thesis by simp
qed

lemma length_grid_cells:
  assumes "1 \<le> rows" and "rows \<le> n"
  shows "int (length (grid_cells x0 y0 width height n gap rows)) = n"
proof -
  have "length (grid_cells x0 y0 width height n gap rows) =
        sum_list (map (\<lambda>r. nat (row_count n rows r)) [0..<nat rows])"
    unfolding grid_cells_def grid_rows_def length_emit_rows map_map comp_def snd_conv
    using row_count_pos[OF assms] by (simp add: distribute_length)
  moreover have "int (sum_list (map (\<lambda>r. nat (row_count n rows r)) [0..<nat rows])) =
        sum_list (map (row_count n rows) [0..<nat rows])"
  proof -
    have "int (nat (row_count n rows r)) = row_count n rows r" for r
      using row_count_pos[OF assms, of r] by simp
    then have "map int (map (\<lambda>r. nat (row_count n rows r)) [0..<nat rows]) =
               map (row_count n rows) [0..<nat rows]"
      by simp
    then show ?thesis by (simp only: sum_list_of_nat[symmetric])
  qed
  ultimately show ?thesis using sum_list_row_count[OF assms(1)] by simp
qed

lemma computeBestRowsNoWaste_Some:
  assumes "1 \<le> n" and "1 \<le> width" and "1 \<le> height" and "0 \<le> gap"
    and "computeBestRowsNoWaste (real_of_int n) (real_of_int width) (real_of_int height)
           (real_of_int gap) = Some rows"
  shows "1 \<le> rows" and "rows \<le> n" and "rows \<le> height" and "rows_feasible n width height gap rows"
  using computeBestRowsNoWaste_first_best[OF assms(1-4)] unfolding assms(5) first_best_def
  by simp_all

lemma tryBuildCellsFilled_eq:
  assumes "1 \<le> n" and "0 \<le> g"
    and "1 \<le> round (rect_width rect)" and "1 \<le> round (rect_height rect)"
  shows "tryBuildCellsFilled rect (real_of_int n) (real_of_int g) =
         map_option
           (grid_cells (round (rect_x rect)) (round (rect_y rect))
              (round (rect_width rect)) (round (rect_height rect)) n g)
           (computeBestRowsNoWaste (real_of_int n) (real_of_int (round (rect_width rect)))
              (real_of_int (round (rect_height rect))) (real_of_int g))"
proof -
  define W where "W = round (rect_width rect)"
  define H where "H = round (rect_height rect)"
  define x0 where "x0 = round (rect_x rect)"
  define y0 where "y0 = round (rect_y rect)"
  have n0: "max 0 \<lfloor>real_of_int n\<rfloor> = n" "(n = 0) = False" using assms(1) by simp_all
  have g0: "max 0 \<lfloor>real_of_int g\<rfloor> = g" using assms(2) by simp
  have wh: "(W \<le> 0 \<or> H \<le> 0) = False" using assms(3,4) by (simp add: W_def H_def)
  have WH: "1 \<le> W" "1 \<le> H" using assms(3,4) by (simp_all add: W_def H_def)
  show ?thesis
  proof (cases "computeBestRowsNoWaste (real_of_int n) (real_of_int W) (real_of_int H) (real_of_int g)")
    case None
    then show ?thesis
      unfolding tryBuildCellsFilled_def Let_def n0 g0 W_def[symmetric] H_def[symmetric] wh
      by (simp only: if_False option.case option.map)
  next
    case (Some rows)
    note b = computeBestRowsNoWaste_Some[OF assms(1) WH assms(2) Some]
    have rows0: "(rows \<le> 0) = False" using b(1) by simp
    have base: "\<lfloor>real_of_int n / real_of_int rows\<rfloor> = n div rows"
      by (simp add: floor_divide_of_int_eq)
    have "0 < n div rows" using b(1,2) by (simp add: pos_imp_zdiv_pos_iff)
    then have pos: "(n div rows \<le> 0) = False" by simp
    have extra: "n - n div rows * rows = n mod rows"
      by (simp add: minus_div_mult_eq_mod)
    have ah: "(H - g * (rows - 1) < rows) = False"
      using b(4) by (simp add: rows_feasible_def)
    let ?rowCounts = "map (\<lambda>r. n div rows + (if int r < n mod rows then 1 else 0)) [0..<nat rows]"
    let ?rowHeights = "distribute (real_of_int (H - g * (rows - 1))) (real_of_int rows)"
    have nth: "?rowCounts ! k = row_count n rows k" if "k < nat rows" for k
      using that by (simp add: row_count_def)
    have emit: "rowsEmit n g x0 W rows ?rowCounts ?rowHeights 0 y0 [] =
                  Some (grid_cells x0 y0 W H n g rows)"
    proof -
      have "rowsEmit n g x0 W rows ?rowCounts ?rowHeights 0 y0 [] =
         Some ([] @ emit_rows x0 y0 g
           (map (\<lambda>k. (?rowHeights ! k,
                    distribute (real_of_int (W - g * (?rowCounts ! k - 1)))
                      (real_of_int (?rowCounts ! k))))
           [0..<nat rows]))"
      proof (rule rowsEmit_emit_rows)
        show "\<forall>k \<in> {0..<nat rows}. 1 \<le> ?rowCounts ! k \<and> ?rowCounts ! k \<le> W - g * (?rowCounts ! k - 1)"
        proof
          fix k assume k: "k \<in> {0..<nat rows}"
          then have kk: "k < nat rows" by simp
          show "1 \<le> ?rowCounts ! k \<and> ?rowCounts ! k \<le> W - g * (?rowCounts ! k - 1)"
            unfolding nth[OF kk]
            using row_count_pos[OF b(1,2), of k] b(4) k unfolding rows_feasible_def by blast
        qed
        have "(\<Sum>k \<in> {0..<nat rows}. ?rowCounts ! k) = (\<Sum>k \<in> {0..<nat rows}. row_count n rows k)"
          by (rule sum.cong) (simp_all add: row_count_def)
        also have "\<dots> = sum_list (map (row_count n rows) [0..<nat rows])"
          by (simp add: interv_sum_list_conv_sum_set_nat)
        also have "\<dots> = n" by (rule sum_list_row_count[OF b(1)])
        finally show "int (length ([]::Rect list)) + (\<Sum>k \<in> {0..<nat rows}. ?rowCounts ! k) = n"
          by simp
      qed simp
      moreover have "map (\<lambda>k. (?rowHeights ! k,
                    distribute (real_of_int (W - g * (?rowCounts ! k - 1)))
                      (real_of_int (?rowCounts ! k))))
           [0..<nat rows] = grid_rows W H n g rows"
        unfolding grid_rows_def by (rule map_cong[OF refl]) (simp add: row_count_def)
      ultimately show ?thesis by (simp add: grid_cells_def)
    qed
    have len: "(int (length (grid_cells x0 y0 W H n g rows)) = n) = True"
      using length_grid_cells[OF b(1,2)] by simp
    show ?thesis
      unfolding tryBuildCellsFilled_def Let_def n0 g0 W_def[symmetric] H_def[symmetric]
        x0_def[symmetric] y0_def[symmetric] wh Some
      by (simp only: if_False if_True option.case option.map rows0 base pos extra ah emit len)
  qed
qed

subsection \<open>The packer with its fallback\<close>

lemma feasible_imp_fits:
  assumes "1 \<le> rows" and "rows \<le> n" and "0 \<le> gap" and "rows_feasible n width height gap rows"
  shows "n \<le> width * height" and "1 \<le> width" and "1 \<le> height"
proof -
  have rc: "1 \<le> row_count n rows k" for k by (rule row_count_pos[OF assms(1,2)])
  have le_w: "row_count n rows k \<le> width" if "k < nat rows" for k
  proof -
    have "row_count n rows k \<le> width - gap * (row_count n rows k - 1)"
      using assms(4) that by (simp add: rows_feasible_def)
    moreover have "0 \<le> gap * (row_count n rows k - 1)"
      using assms(3) rc[of k] by simp
    ultimately show ?thesis by linarith
  qed
  have "0 < nat rows" using assms(1) by simp
  from le_w[OF this] rc[of 0] show w: "1 \<le> width" by linarith
  have "rows \<le> height - gap * (rows - 1)" using assms(4) by (simp add: rows_feasible_def)
  moreover have "0 \<le> gap * (rows - 1)" using assms(1,3) by simp
  ultimately have h: "rows \<le> height" by linarith
  with assms(1) show "1 \<le> height" by linarith
  have "n = sum_list (map (row_count n rows) [0..<nat rows])"
    by (rule sum_list_row_count[OF assms(1), symmetric])
  also have "\<dots> = (\<Sum>k \<in> {0..<nat rows}. row_count n rows k)"
    by (simp add: interv_sum_list_conv_sum_set_nat)
  also have "\<dots> \<le> (\<Sum>k \<in> {0..<nat rows}. width)"
    by (rule sum_mono) (use le_w in simp)
  also have "\<dots> = rows * width" using assms(1) by simp
  also have "\<dots> \<le> height * width" using h w by (intro mult_right_mono) simp_all
  finally show "n \<le> width * height" by (simp add: mult.commute)
qed

lemma fits_imp_feasible:
  assumes "1 \<le> n" and "1 \<le> width" and "1 \<le> height" and "n \<le> width * height"
  shows "rows_feasible n width height 0 (min n height)"
proof (cases "n \<le> height")
  case True
  then have m: "min n height = n" by simp
  have "row_count n n r \<le> 1" for r using assms(1) by (simp add: row_count_def)
  with assms(2) True show ?thesis
    unfolding m rows_feasible_def by (auto intro: order_trans)
next
  case False
  then have m: "min n height = height" by simp
  have "row_count n height r \<le> width" for r
  proof (cases "n mod height = 0")
    case True
    then have "n = height * (n div height)" by auto
    with assms(4) have "height * (n div height) \<le> height * width" by (simp add: mult.commute)
    with assms(3) have "n div height \<le> width" by simp
    with True show ?thesis by (simp add: row_count_def)
  next
    case nz: False
    have "n < width * height"
    proof (rule ccontr)
      assume "\<not> n < width * height"
      with assms(4) have "n = width * height" by simp
      with nz show False by simp
    qed
    moreover have "height * (n div height) + n mod height = n" by simp
    moreover have "0 \<le> n mod height" using assms(3) by simp
    ultimately have "height * (n div height) < height * width"
      by (simp only: mult.commute[of width height])
    then have "n div height < width" using assms(3) by simp
    then show ?thesis by (simp add: row_count_def)
  qed
  then show ?thesis unfolding m rows_feasible_def by simp
qed

lemma computeBestRowsNoWaste_gap0_fits:
  assumes "1 \<le> n" and "1 \<le> width" and "1 \<le> height" and "n \<le> width * height"
  shows "computeBestRowsNoWaste (real_of_int n) (real_of_int width) (real_of_int height) 0 \<noteq> None"
proof -
  have m: "1 \<le> min n height" "min n height < min n height + 1" using assms by simp_all
  show ?thesis
  proof
    assume "computeBestRowsNoWaste (real_of_int n) (real_of_int width) (real_of_int height) 0 = None"
    with computeBestRowsNoWaste_first_best[OF assms(1-3), of 0]
    have "\<forall>c. 1 \<le> c \<and> c < min n height + 1 \<longrightarrow> \<not> rows_feasible n width height 0 c"
      by (simp add: first_best_def)
    with m fits_imp_feasible[OF assms] show False by blast
  qed
qed

lemma tryBuildCellsFilled_nonpos:
  assumes "1 \<le> n" and "round (rect_width rect) \<le> 0 \<or> round (rect_height rect) \<le> 0"
  shows "tryBuildCellsFilled rect (real_of_int n) g = None"
proof -
  have n0: "max 0 \<lfloor>real_of_int n\<rfloor> = n" "(n = 0) = False" using assms(1) by simp_all
  show ?thesis
    unfolding tryBuildCellsFilled_def Let_def n0 using assms(2) by (simp only: if_False if_True)
qed

lemma tryBuildCellsFilled_Some:
  assumes "1 \<le> n" and "0 \<le> g"
    and "tryBuildCellsFilled rect (real_of_int n) (real_of_int g) = Some cells"
  shows "fits rect n \<and> packed rect n g cells"
proof -
  let ?W = "round (rect_width rect)" and ?H = "round (rect_height rect)"
  have WH: "1 \<le> ?W" "1 \<le> ?H"
    using tryBuildCellsFilled_nonpos[OF assms(1), of rect "real_of_int g"] assms(3)
    by (force, force)
  from assms(3) obtain rows where
    rows: "computeBestRowsNoWaste (real_of_int n) (real_of_int ?W) (real_of_int ?H) (real_of_int g) = Some rows"
    and cells: "cells = grid_cells (round (rect_x rect)) (round (rect_y rect)) ?W ?H n g rows"
    unfolding tryBuildCellsFilled_eq[OF assms(1,2) WH] by auto
  note b = computeBestRowsNoWaste_Some[OF assms(1) WH assms(2) rows]
  have "n \<le> ?W * ?H" by (rule feasible_imp_fits(1)[OF b(1,2) assms(2) b(4)])
  with assms(1) WH have "fits rect n" by (simp add: fits_def)
  moreover have "packed rect n g cells"
  proof -
    have "g \<in> {0..g}" "rows \<in> {1..n}" using b assms(2) by simp_all
    then show ?thesis unfolding packed_def using b(4) cells by blast
  qed
  ultimately show ?thesis by simp
qed

lemma tryBuildCellsFilled_gap0:
  assumes "fits rect n"
  shows "tryBuildCellsFilled rect (real_of_int n) 0 \<noteq> None"
proof -
  from assms have f: "1 \<le> n" "1 \<le> round (rect_width rect)" "1 \<le> round (rect_height rect)"
    "n \<le> round (rect_width rect) * round (rect_height rect)"
    by (simp_all add: fits_def)
  have "tryBuildCellsFilled rect (real_of_int n) (real_of_int 0) \<noteq> None"
    unfolding tryBuildCellsFilled_eq[OF f(1) order_refl f(2,3)]
    using computeBestRowsNoWaste_gap0_fits[OF f] by simp
  then show ?thesis by simp
qed

lemma attemptLoop_Some:
  assumes "0 \<le> g" and "attemptLoop rect n g attempt = Some cells"
  shows "\<exists>g'. 0 \<le> g' \<and> g' \<le> g \<and> tryBuildCellsFilled rect (real_of_int n) (real_of_int g') = Some cells"
  using assms
proof (induction "4 - attempt" arbitrary: g attempt)
  case 0
  then have "\<not> attempt < 4" by simp
  with "0.prems"(2) show ?case by (subst (asm) attemptLoop.simps) simp
next
  case (Suc k)
  then have lt: "attempt < 4" by simp
  show ?case
  proof (cases "tryBuildCellsFilled rect (real_of_int n) (real_of_int g)")
    case (Some cs)
    with Suc.prems(2) lt have "cs = cells" by (subst (asm) attemptLoop.simps) simp
    with Some Suc.prems(1) show ?thesis by auto
  next
    case None
    have half: "\<lfloor>real_of_int g / 2\<rfloor> = g div 2"
      using floor_divide_of_int_eq[of g 2] by simp
    from None Suc.prems(2) lt have "attemptLoop rect n (g div 2) (attempt + 1) = Some cells"
      by (subst (asm) attemptLoop.simps) (simp add: half)
    moreover have "k = 4 - (attempt + 1)" using Suc.hyps(2) by simp
    moreover have "0 \<le> g div 2" using Suc.prems(1) by simp
    ultimately obtain g' where "0 \<le> g'" "g' \<le> g div 2"
      "tryBuildCellsFilled rect (real_of_int n) (real_of_int g') = Some cells"
      using Suc.hyps(1) by blast
    moreover have "g div 2 \<le> g" using Suc.prems(1) by simp
    ultimately show ?thesis by (meson order_trans)
  qed
qed

lemma buildCellsFilled_cases:
  assumes "n = max 0 \<lfloor>count\<rfloor>"
  shows "(fits rect n \<and> packed rect n (max 0 \<lfloor>gap\<rfloor>) (buildCellsFilled rect count gap))
       \<or> (\<not> fits rect n \<and> buildCellsFilled rect count gap = [])"
proof (cases "n = 0")
  case True
  then have "\<not> fits rect n" by (simp add: fits_def)
  moreover have "buildCellsFilled rect count gap = []"
    using True assms by (simp add: buildCellsFilled_def)
  ultimately show ?thesis by simp
next
  case False
  with assms have n: "1 \<le> n" by simp
  define g0 where "g0 = max 0 \<lfloor>gap\<rfloor>"
  have g0: "0 \<le> g0" by (simp add: g0_def)
  have unf: "buildCellsFilled rect count gap =
      (case attemptLoop rect n g0 0 of
         Some cells \<Rightarrow> cells
       | None \<Rightarrow> (case tryBuildCellsFilled rect (real_of_int n) 0 of
                    Some cells \<Rightarrow> cells | None \<Rightarrow> []))"
    using False unfolding buildCellsFilled_def Let_def assms[symmetric] g0_def[symmetric]
    by (simp only: if_False)
  show ?thesis
  proof (cases "attemptLoop rect n g0 0")
    case (Some cells)
    from attemptLoop_Some[OF g0 Some] obtain g' where
      g': "0 \<le> g'" "g' \<le> g0" "tryBuildCellsFilled rect (real_of_int n) (real_of_int g') = Some cells"
      by blast
    from tryBuildCellsFilled_Some[OF n g'(1) g'(3)] have "fits rect n" "packed rect n g' cells"
      by simp_all
    then have "packed rect n g0 cells" using g'(2) unfolding packed_def
      by (meson atLeastAtMost_iff order_trans)
    with \<open>fits rect n\<close> Some show ?thesis unfolding unf g0_def by simp
  next
    case None
    show ?thesis
    proof (cases "tryBuildCellsFilled rect (real_of_int n) 0")
      case (Some cells)
      then have "tryBuildCellsFilled rect (real_of_int n) (real_of_int 0) = Some cells" by simp
      from tryBuildCellsFilled_Some[OF n order_refl this] have "fits rect n" "packed rect n 0 cells"
        by simp_all
      then have "packed rect n g0 cells" using g0 unfolding packed_def
        by (meson atLeastAtMost_iff order_trans)
      with \<open>fits rect n\<close> Some None show ?thesis unfolding unf g0_def by simp
    next
      case N2: None
      with tryBuildCellsFilled_gap0[of rect n] have "\<not> fits rect n" by blast
      with None N2 show ?thesis unfolding unf by simp
    qed
  qed
qed

lemma packed_length: "packed rect n g0 cells \<Longrightarrow> int (length cells) = n"
  unfolding packed_def by (auto simp: length_grid_cells)

lemmas packer_eval = buildCellsFilled_def tryBuildCellsFilled_def computeBestRowsNoWaste_def
  Let_def rowsLoop.simps scoreRows.simps rowsEmit.simps colsLoop.simps attemptLoop.simps
  score_less_def distribute_def int_rect_def

text \<open>
  C3, as stated, fails: for a rectangle of one pixel (positive area) and \<open>n = 2\<close> the packer
  returns no cells, at gap 0 too, since every cell needs at least one pixel.
\<close>

theorem buildCellsFilled_empty_counterexample:
  "buildCellsFilled \<lparr>rect_x = 0, rect_y = 0, rect_width = 1, rect_height = 1\<rparr> 2 0 = []
   \<and> (2::real) \<noteq> 0
   \<and> 0 < rect_width \<lparr>rect_x = 0, rect_y = 0, rect_width = 1, rect_height = 1\<rparr>
         * rect_height \<lparr>rect_x = 0, rect_y = 0, rect_width = 1, rect_height = 1\<rparr>"
  by (simp add: packer_eval)

text \<open>
  C3, amended. With \<open>n = max 0 \<lfloor>count\<rfloor>\<close> and \<open>W\<close>, \<open>H\<close> the rounded width and height of the
  rectangle: \<^verbatim>\<open>buildCellsFilled\<close> returns the empty list exactly when \<open>n = 0\<close>, or \<open>W < 1\<close>, or
  \<open>H < 1\<close>, or \<open>n > W * H\<close> (more cells than pixels); in every other case it succeeds, at the
  latest with gap 0, and returns exactly \<open>n\<close> cells.
\<close>

theorem buildCellsFilled_length:
  assumes "n = max 0 \<lfloor>count\<rfloor>"
    and "W = round (rect_width rect)" and "H = round (rect_height rect)"
  shows "(buildCellsFilled rect count gap = [] \<longleftrightarrow> n = 0 \<or> W < 1 \<or> H < 1 \<or> W * H < n)
       \<and> (1 \<le> n \<and> 1 \<le> W \<and> 1 \<le> H \<and> n \<le> W * H
            \<longrightarrow> int (length (buildCellsFilled rect count gap)) = n)"
proof -
  have n0: "0 \<le> n" using assms(1) by simp
  have f: "fits rect n \<longleftrightarrow> \<not> (n = 0 \<or> W < 1 \<or> H < 1 \<or> W * H < n)"
    using n0 unfolding fits_def assms(2,3) by auto
  from buildCellsFilled_cases[OF assms(1), of rect gap] show ?thesis
  proof
    assume a: "fits rect n \<and> packed rect n (max 0 \<lfloor>gap\<rfloor>) (buildCellsFilled rect count gap)"
    then have len: "int (length (buildCellsFilled rect count gap)) = n"
      using packed_length by blast
    moreover from a have "1 \<le> n" by (simp add: fits_def)
    ultimately have "buildCellsFilled rect count gap \<noteq> []" by auto
    with a len f show ?thesis by blast
  next
    assume a: "\<not> fits rect n \<and> buildCellsFilled rect count gap = []"
    with f show ?thesis by auto
  qed
qed

theorem buildCellsFilled_length_witness:
  "buildCellsFilled (int_rect 0 0 2 2) 3 0 = [int_rect 0 0 1 1, int_rect 1 0 1 1, int_rect 0 1 2 1]
   \<and> ((1::int) \<le> 3 \<and> (1::int) \<le> 2 \<and> (1::int) \<le> 2 \<and> (3::int) \<le> 2 * 2)
   \<and> int (length (buildCellsFilled (int_rect 0 0 2 2) 3 0)) = 3"
proof -
  have v: "buildCellsFilled (int_rect 0 0 2 2) 3 0
             = [int_rect 0 0 1 1, int_rect 1 0 1 1, int_rect 0 1 2 1]"
    by (simp add: packer_eval)
  have n: "(3::int) = max 0 \<lfloor>3::real\<rfloor>" by simp
  have w: "(2::int) = round (rect_width (int_rect 0 0 2 2))"
    and h: "(2::int) = round (rect_height (int_rect 0 0 2 2))"
    by (simp_all add: int_rect_def)
  from buildCellsFilled_length[OF n w h, of 0] v show ?thesis by simp
qed

subsection \<open>Geometry of the grid\<close>

lemma overlap_area_separated:
  assumes "rect_x a + rect_width a \<le> rect_x b \<or> rect_x b + rect_width b \<le> rect_x a
         \<or> rect_y a + rect_height a \<le> rect_y b \<or> rect_y b + rect_height b \<le> rect_y a"
  shows "overlap_area a b = 0"
proof -
  have "min (rect_x a + rect_width a) (rect_x b + rect_width b) - max (rect_x a) (rect_x b) \<le> 0
      \<or> min (rect_y a + rect_height a) (rect_y b + rect_height b) - max (rect_y a) (rect_y b) \<le> 0"
    using assms by (auto simp: min_def max_def)
  then show ?thesis unfolding overlap_area_def by (auto simp: max_def)
qed

lemma non_overlapping_append:
  "non_overlapping (xs @ ys) \<longleftrightarrow>
     non_overlapping xs \<and> non_overlapping ys \<and> (\<forall>a \<in> set xs. \<forall>b \<in> set ys. overlap_area a b = 0)"
  by (induction xs) auto

lemma emit_row_inside:
  assumes "0 \<le> gap" and "\<forall>w \<in> set ws. 0 \<le> w" and "c \<in> set (emit_row px py gap h ws)"
  shows "real_of_int px \<le> rect_x c
       \<and> rect_x c + rect_width c \<le> real_of_int (px + sum_list ws + gap * (int (length ws) - 1))
       \<and> rect_y c = real_of_int py \<and> rect_height c = real_of_int h"
  using assms(2,3)
proof (induction ws arbitrary: px)
  case Nil
  then show ?case by simp
next
  case (Cons w ws)
  have w: "0 \<le> w" and s: "0 \<le> sum_list ws" using Cons.prems(1) by (simp_all add: sum_list_nonneg)
  have gl: "0 \<le> gap * int (length ws)" using assms(1) by simp
  from Cons.prems(2) consider "c = int_rect px py w h" | "c \<in> set (emit_row (px + w + gap) py gap h ws)"
    by auto
  then show ?case
  proof cases
    case 1
    have "px + w \<le> px + (w + sum_list ws) + gap * int (length ws)" using s gl by linarith
    then have "real_of_int (px + w) \<le> real_of_int (px + (w + sum_list ws) + gap * int (length ws))"
      by (simp only: of_int_le_iff)
    with 1 show ?thesis by (simp add: int_rect_def)
  next
    case 2
    from Cons.IH[OF _ 2] Cons.prems(1)
    have ih: "real_of_int (px + w + gap) \<le> rect_x c"
      "rect_x c + rect_width c \<le> real_of_int (px + w + gap + sum_list ws + gap * (int (length ws) - 1))"
      "rect_y c = real_of_int py" "rect_height c = real_of_int h"
      by simp_all
    have "real_of_int px \<le> real_of_int (px + w + gap)" using w assms(1) by (simp only: of_int_le_iff)
    moreover have "px + w + gap + sum_list ws + gap * (int (length ws) - 1)
         = px + sum_list (w # ws) + gap * (int (length (w # ws)) - 1)"
      by (simp add: algebra_simps)
    ultimately show ?thesis using ih by (intro conjI) (simp only:, linarith, simp_all)
  qed
qed

lemma emit_row_non_overlapping:
  assumes "0 \<le> gap" and "\<forall>w \<in> set ws. 0 \<le> w"
  shows "non_overlapping (emit_row px py gap h ws)"
  using assms(2)
proof (induction ws arbitrary: px)
  case Nil
  then show ?case by simp
next
  case (Cons w ws)
  have "overlap_area (int_rect px py w h) b = 0" if "b \<in> set (emit_row (px + w + gap) py gap h ws)" for b
  proof -
    from emit_row_inside[OF assms(1) _ that] Cons.prems
    have "real_of_int (px + w + gap) \<le> rect_x b" by simp
    moreover have "real_of_int (px + w) \<le> real_of_int (px + w + gap)"
      using assms(1) by (simp only: of_int_le_iff)
    ultimately have "rect_x (int_rect px py w h) + rect_width (int_rect px py w h) \<le> rect_x b"
      by (simp add: int_rect_def)
    then show ?thesis by (intro overlap_area_separated) simp
  qed
  moreover have "non_overlapping (emit_row (px + w + gap) py gap h ws)"
    using Cons by simp
  ultimately show ?case by simp
qed

lemma emit_rows_inside:
  assumes "0 \<le> gap"
    and "\<forall>row \<in> set rs. 0 \<le> fst row \<and> (\<forall>w \<in> set (snd row). 0 \<le> w)
            \<and> sum_list (snd row) + gap * (int (length (snd row)) - 1) \<le> W"
    and "c \<in> set (emit_rows px py gap rs)"
  shows "inside_box px py W (sum_list (map fst rs) + gap * (int (length rs) - 1)) c"
  using assms(2,3)
proof (induction rs arbitrary: py)
  case Nil
  then show ?case by simp
next
  case (Cons row rest)
  obtain h ws where row: "row = (h, ws)" by (cases row)
  have h: "0 \<le> h" and ws: "\<forall>w \<in> set ws. 0 \<le> w"
    and ext: "sum_list ws + gap * (int (length ws) - 1) \<le> W"
    using Cons.prems(1) row by simp_all
  have rest: "\<forall>row \<in> set rest. 0 \<le> fst row \<and> (\<forall>w \<in> set (snd row). 0 \<le> w)
            \<and> sum_list (snd row) + gap * (int (length (snd row)) - 1) \<le> W"
    using Cons.prems(1) by simp
  have s: "0 \<le> sum_list (map fst rest)" using rest by (intro sum_list_nonneg) auto
  have gl: "0 \<le> gap * int (length rest)" using assms(1) by simp
  let ?T = "sum_list (map fst (row # rest)) + gap * (int (length (row # rest)) - 1)"
  have T: "?T = h + sum_list (map fst rest) + gap * int (length rest)"
    by (simp add: row)
  from Cons.prems(2) consider "c \<in> set (emit_row px py gap h ws)"
    | "c \<in> set (emit_rows px (py + h + gap) gap rest)"
    by (auto simp: row)
  then show ?case
  proof cases
    case 1
    from emit_row_inside[OF assms(1) ws 1]
    have c: "real_of_int px \<le> rect_x c"
      "rect_x c + rect_width c \<le> real_of_int (px + sum_list ws + gap * (int (length ws) - 1))"
      "rect_y c = real_of_int py" "rect_height c = real_of_int h" by simp_all
    have "real_of_int (px + sum_list ws + gap * (int (length ws) - 1)) \<le> real_of_int (px + W)"
      using ext by (simp only: of_int_le_iff; linarith)
    moreover have "real_of_int (py + h) \<le> real_of_int (py + ?T)"
      unfolding T using s gl by (simp only: of_int_le_iff; linarith)
    moreover have "real_of_int (py + h) = real_of_int py + real_of_int h" by simp
    ultimately show ?thesis
      unfolding inside_box_def using c by (intro conjI) linarith+
  next
    case 2
    from Cons.IH[OF rest 2]
    have c: "real_of_int px \<le> rect_x c" "rect_x c + rect_width c \<le> real_of_int (px + W)"
      "real_of_int (py + h + gap) \<le> rect_y c"
      "rect_y c + rect_height c \<le> real_of_int (py + h + gap
          + (sum_list (map fst rest) + gap * (int (length rest) - 1)))"
      unfolding inside_box_def by simp_all
    have "real_of_int py \<le> real_of_int (py + h + gap)"
      using h assms(1) by (simp only: of_int_le_iff; linarith)
    moreover have "py + h + gap + (sum_list (map fst rest) + gap * (int (length rest) - 1)) = py + ?T"
      unfolding T by (simp add: algebra_simps)
    ultimately show ?thesis
      unfolding inside_box_def using c by (intro conjI) (simp only:, linarith+)
  qed
qed

lemma emit_rows_non_overlapping:
  assumes "0 \<le> gap"
    and "\<forall>row \<in> set rs. 0 \<le> fst row \<and> (\<forall>w \<in> set (snd row). 0 \<le> w)
            \<and> sum_list (snd row) + gap * (int (length (snd row)) - 1) \<le> W"
  shows "non_overlapping (emit_rows px py gap rs)"
  using assms(2)
proof (induction rs arbitrary: py)
  case Nil
  then show ?case by simp
next
  case (Cons row rest)
  obtain h ws where row: "row = (h, ws)" by (cases row)
  have h: "0 \<le> h" and ws: "\<forall>w \<in> set ws. 0 \<le> w"
    using Cons.prems(1) row by simp_all
  have rest: "\<forall>row \<in> set rest. 0 \<le> fst row \<and> (\<forall>w \<in> set (snd row). 0 \<le> w)
            \<and> sum_list (snd row) + gap * (int (length (snd row)) - 1) \<le> W"
    using Cons.prems(1) by simp
  have cross: "overlap_area a b = 0"
    if a: "a \<in> set (emit_row px py gap h ws)" and b: "b \<in> set (emit_rows px (py + h + gap) gap rest)"
    for a b
  proof -
    from emit_row_inside[OF assms(1) ws a]
    have "rect_y a = real_of_int py" "rect_height a = real_of_int h" by simp_all
    moreover from emit_rows_inside[OF assms(1) rest b]
    have "real_of_int (py + h + gap) \<le> rect_y b" by (simp add: inside_box_def)
    moreover have "real_of_int (py + h) \<le> real_of_int (py + h + gap)"
      using assms(1) by (simp only: of_int_le_iff; linarith)
    ultimately have "rect_y a + rect_height a \<le> rect_y b" by simp
    then show ?thesis by (intro overlap_area_separated) simp
  qed
  show ?case
    unfolding row emit_rows.simps non_overlapping_append
    using emit_row_non_overlapping[OF assms(1) ws] Cons.IH[OF rest] cross by blast
qed

lemma distribute_nonneg:
  assumes "1 \<le> p" and "e \<in> set (distribute tot (real_of_int p))"
  shows "0 \<le> e"
proof -
  have "0 \<le> max 0 \<lfloor>tot\<rfloor> div p" using assms(1) by (simp add: pos_imp_zdiv_nonneg_iff)
  with assms(2) show ?thesis unfolding distribute_unfold[OF assms(1)] by auto
qed

lemma grid_rows_ok:
  assumes "1 \<le> rows" and "rows \<le> n" and "0 \<le> gap" and "rows_feasible n width height gap rows"
  shows "\<forall>row \<in> set (grid_rows width height n gap rows).
            0 \<le> fst row \<and> (\<forall>w \<in> set (snd row). 0 \<le> w)
            \<and> sum_list (snd row) + gap * (int (length (snd row)) - 1) \<le> width"
    and "sum_list (map fst (grid_rows width height n gap rows))
           + gap * (int (length (grid_rows width height n gap rows)) - 1) = height"
proof -
  let ?ah = "height - gap * (rows - 1)"
  let ?hs = "distribute (real_of_int ?ah) (real_of_int rows)"
  have ah: "rows \<le> ?ah" using assms(4) by (simp add: rows_feasible_def)
  have lh: "length ?hs = nat rows" by (rule distribute_length[OF assms(1)])
  show "\<forall>row \<in> set (grid_rows width height n gap rows).
            0 \<le> fst row \<and> (\<forall>w \<in> set (snd row). 0 \<le> w)
            \<and> sum_list (snd row) + gap * (int (length (snd row)) - 1) \<le> width"
  proof
    fix row assume "row \<in> set (grid_rows width height n gap rows)"
    then obtain r where r: "r < nat rows"
      and row: "row = (?hs ! r,
                 distribute (real_of_int (width - gap * (row_count n rows r - 1)))
                   (real_of_int (row_count n rows r)))"
      unfolding grid_rows_def by auto
    let ?rc = "row_count n rows r"
    let ?aw = "width - gap * (?rc - 1)"
    have rc: "1 \<le> ?rc" by (rule row_count_pos[OF assms(1,2)])
    have aw: "?rc \<le> ?aw" using assms(4) r by (simp add: rows_feasible_def)
    have "?hs ! r \<in> set ?hs" using r lh by simp
    then have 1: "0 \<le> ?hs ! r" by (rule distribute_nonneg[OF assms(1)])
    have 2: "\<forall>w \<in> set (distribute (real_of_int ?aw) (real_of_int ?rc)). 0 \<le> w"
      using distribute_nonneg[OF rc] by blast
    have "sum_list (distribute (real_of_int ?aw) (real_of_int ?rc)) = max 0 \<lfloor>real_of_int ?aw\<rfloor>"
      by (rule distribute_sum[OF rc])
    also have "\<dots> = ?aw" using aw rc by (simp only: floor_of_int; linarith)
    finally have s: "sum_list (distribute (real_of_int ?aw) (real_of_int ?rc)) = ?aw" .
    have l: "int (length (distribute (real_of_int ?aw) (real_of_int ?rc))) = ?rc"
      unfolding distribute_length[OF rc] using rc by simp
    have 3: "sum_list (distribute (real_of_int ?aw) (real_of_int ?rc))
           + gap * (int (length (distribute (real_of_int ?aw) (real_of_int ?rc))) - 1) \<le> width"
      unfolding s l by simp
    show "0 \<le> fst row \<and> (\<forall>w \<in> set (snd row). 0 \<le> w)
            \<and> sum_list (snd row) + gap * (int (length (snd row)) - 1) \<le> width"
      unfolding row fst_conv snd_conv using 1 2 3 by blast
  qed
  have "map fst (grid_rows width height n gap rows) = map (\<lambda>r. ?hs ! r) [0..<length ?hs]"
    unfolding grid_rows_def lh by (simp add: comp_def)
  also have "\<dots> = ?hs" by (rule map_nth)
  finally have "sum_list (map fst (grid_rows width height n gap rows)) = max 0 \<lfloor>real_of_int ?ah\<rfloor>"
    using distribute_sum[OF assms(1)] by simp
  also have "\<dots> = ?ah" using ah assms(1) by (simp only: floor_of_int; linarith)
  finally have s: "sum_list (map fst (grid_rows width height n gap rows)) = ?ah" .
  have l: "int (length (grid_rows width height n gap rows)) = rows"
    using assms(1) by (simp add: grid_rows_def)
  show "sum_list (map fst (grid_rows width height n gap rows))
           + gap * (int (length (grid_rows width height n gap rows)) - 1) = height"
    unfolding s l by simp
qed

lemma grid_cells_inside:
  assumes "1 \<le> rows" and "rows \<le> n" and "0 \<le> gap" and "rows_feasible n width height gap rows"
    and "c \<in> set (grid_cells x0 y0 width height n gap rows)"
  shows "inside_box x0 y0 width height c"
  using emit_rows_inside[OF assms(3) grid_rows_ok(1)[OF assms(1-4)] assms(5)[unfolded grid_cells_def]]
  unfolding grid_rows_ok(2)[OF assms(1-4)] .

lemma grid_cells_non_overlapping:
  assumes "1 \<le> rows" and "rows \<le> n" and "0 \<le> gap" and "rows_feasible n width height gap rows"
  shows "non_overlapping (grid_cells x0 y0 width height n gap rows)"
  unfolding grid_cells_def
  by (rule emit_rows_non_overlapping[OF assms(3) grid_rows_ok(1)[OF assms]])

lemma packed_inside:
  assumes "packed rect n g0 cells" and "c \<in> set cells"
  shows "inside_box (round (rect_x rect)) (round (rect_y rect))
           (round (rect_width rect)) (round (rect_height rect)) c"
  using assms unfolding packed_def by (auto intro: grid_cells_inside)

lemma packed_non_overlapping: "packed rect n g0 cells \<Longrightarrow> non_overlapping cells"
  unfolding packed_def by (auto intro: grid_cells_non_overlapping)

subsection \<open>Layout assembler\<close>

lemma computeCollageLayout_eq:
  assumes "sz = max 64 \<lfloor>opt_size options\<rfloor>"
    and "gap = clamp (opt_gap options) 0 (real_of_int \<lfloor>real_of_int sz / 8\<rfloor>)"
    and "N = max 0 \<lfloor>opt_othersCount options\<rfloor>"
    and "computeRegions sz (opt_mainRatio options) = (int_rect t t m m, ring_regions sz t m)"
    and "counts = allocateCounts (real_of_int N) (ring_regions sz t m)"
  shows "computeCollageLayout options =
     \<lparr>layout_size = sz, layout_gap = gap, mainRect = int_rect t t m m,
      ringCells =
        buildCellsFilled (int_rect 0 0 sz t) (real_of_int (counts Top)) gap
        @ buildCellsFilled (int_rect (t + m) t t m) (real_of_int (counts Right)) gap
        @ buildCellsFilled (int_rect 0 (t + m) sz t) (real_of_int (counts Bottom)) gap
        @ buildCellsFilled (int_rect 0 t t m) (real_of_int (counts Left)) gap\<rparr>"
  unfolding computeCollageLayout_def Let_def assms(1)[symmetric] assms(2)[symmetric]
    assms(3)[symmetric] assms(4) prod.case assms(5)[symmetric]
  by (simp add: ring_regions_def)

lemma computeCollageLayout_shape:
  obtains sz gap N t m counts where
    "sz = max 64 \<lfloor>opt_size options\<rfloor>"
    "gap = clamp (opt_gap options) 0 (real_of_int \<lfloor>real_of_int sz / 8\<rfloor>)"
    "N = max 0 \<lfloor>opt_othersCount options\<rfloor>"
    "1 \<le> m" "m \<le> sz" "0 \<le> t" "2 * t = sz - m"
    "computeRegions sz (opt_mainRatio options) = (int_rect t t m m, ring_regions sz t m)"
    "counts = allocateCounts (real_of_int N) (ring_regions sz t m)"
    "computeCollageLayout options =
     \<lparr>layout_size = sz, layout_gap = gap, mainRect = int_rect t t m m,
      ringCells =
        buildCellsFilled (int_rect 0 0 sz t) (real_of_int (counts Top)) gap
        @ buildCellsFilled (int_rect (t + m) t t m) (real_of_int (counts Right)) gap
        @ buildCellsFilled (int_rect 0 (t + m) sz t) (real_of_int (counts Bottom)) gap
        @ buildCellsFilled (int_rect 0 t t m) (real_of_int (counts Left)) gap\<rparr>"
proof -
  define sz where "sz = max 64 \<lfloor>opt_size options\<rfloor>"
  have "1 \<le> sz" by (simp add: sz_def)
  from computeRegions_shape[OF this, of "opt_mainRatio options"] obtain m t where
    mt: "1 \<le> m" "m \<le> sz" "0 \<le> t" "2 * t = sz - m"
    "computeRegions sz (opt_mainRatio options) = (int_rect t t m m, ring_regions sz t m)"
    by blast
  show thesis
    by (rule that[OF sz_def refl refl mt refl computeCollageLayout_eq[OF sz_def refl refl mt(5) refl]])
qed

lemma round_int_rect [simp]:
  "round (rect_x (int_rect px py w h)) = px" "round (rect_y (int_rect px py w h)) = py"
  "round (rect_width (int_rect px py w h)) = w" "round (rect_height (int_rect px py w h)) = h"
  by (simp_all add: int_rect_def)

lemma buildCellsFilled_inside:
  assumes "c \<in> set (buildCellsFilled (int_rect bx by bw bh) count gap)"
  shows "inside_box bx by bw bh c"
proof -
  from buildCellsFilled_cases[OF refl, of "int_rect bx by bw bh" count gap] assms
  have "packed (int_rect bx by bw bh) (max 0 \<lfloor>count\<rfloor>) (max 0 \<lfloor>gap\<rfloor>)
          (buildCellsFilled (int_rect bx by bw bh) count gap)"
    by auto
  from packed_inside[OF this assms] show ?thesis by simp
qed

lemma buildCellsFilled_non_overlapping:
  "non_overlapping (buildCellsFilled rect count gap)"
  using buildCellsFilled_cases[OF refl, of rect count gap] packed_non_overlapping by fastforce

lemma inside_boxes_separated:
  assumes "inside_box ax ay aw ah a" and "inside_box bx by bw bh b"
    and "ax + aw \<le> bx \<or> bx + bw \<le> ax \<or> ay + ah \<le> by \<or> by + bh \<le> ay"
  shows "overlap_area a b = 0"
proof -
  from assms(3) have "real_of_int (ax + aw) \<le> real_of_int bx \<or> real_of_int (bx + bw) \<le> real_of_int ax
     \<or> real_of_int (ay + ah) \<le> real_of_int by \<or> real_of_int (by + bh) \<le> real_of_int ay"
    by (simp only: of_int_le_iff)
  with assms(1,2) have "rect_x a + rect_width a \<le> rect_x b \<or> rect_x b + rect_width b \<le> rect_x a
         \<or> rect_y a + rect_height a \<le> rect_y b \<or> rect_y b + rect_height b \<le> rect_y a"
    unfolding inside_box_def by linarith
  then show ?thesis by (rule overlap_area_separated)
qed

lemma inside_box_int_rect: "inside_box px py w h (int_rect px py w h)"
  by (simp add: inside_box_def int_rect_def)

lemma inside_box_within_canvas:
  assumes "inside_box bx by bw bh c" and "0 \<le> bx" and "0 \<le> by" and "bx + bw \<le> sz" and "by + bh \<le> sz"
  shows "within_canvas sz c"
proof -
  have "real_of_int 0 \<le> real_of_int bx" "real_of_int 0 \<le> real_of_int by"
    "real_of_int (bx + bw) \<le> real_of_int sz" "real_of_int (by + bh) \<le> real_of_int sz"
    using assms(2-5) by (simp_all only: of_int_le_iff)
  with assms(1) show ?thesis unfolding within_canvas_def inside_box_def by simp
qed

text \<open>
  C4. In every layout produced by \<^verbatim>\<open>computeCollageLayout\<close>, the main rectangle and the ring
  cells are pairwise non-overlapping (the area of the intersection of any two of them is 0,
  without any tolerance), and each of them lies within the canvas \<open>[0, size) \<times> [0, size)\<close>.
\<close>

theorem computeCollageLayout_disjoint:
  "non_overlapping (mainRect (computeCollageLayout options) # ringCells (computeCollageLayout options))
   \<and> (\<forall>r \<in> set (mainRect (computeCollageLayout options) # ringCells (computeCollageLayout options)).
         within_canvas (layout_size (computeCollageLayout options)) r)"
proof -
  obtain sz gap N t m counts where
    "sz = max 64 \<lfloor>opt_size options\<rfloor>"
    "gap = clamp (opt_gap options) 0 (real_of_int \<lfloor>real_of_int sz / 8\<rfloor>)"
    "N = max 0 \<lfloor>opt_othersCount options\<rfloor>"
    and mt: "1 \<le> m" "m \<le> sz" "0 \<le> t" "2 * t = sz - m"
    and "computeRegions sz (opt_mainRatio options) = (int_rect t t m m, ring_regions sz t m)"
    "counts = allocateCounts (real_of_int N) (ring_regions sz t m)"
    and L: "computeCollageLayout options =
     \<lparr>layout_size = sz, layout_gap = gap, mainRect = int_rect t t m m,
      ringCells =
        buildCellsFilled (int_rect 0 0 sz t) (real_of_int (counts Top)) gap
        @ buildCellsFilled (int_rect (t + m) t t m) (real_of_int (counts Right)) gap
        @ buildCellsFilled (int_rect 0 (t + m) sz t) (real_of_int (counts Bottom)) gap
        @ buildCellsFilled (int_rect 0 t t m) (real_of_int (counts Left)) gap\<rparr>"
    by (rule computeCollageLayout_shape[of options])
  define M where "M = int_rect t t m m"
  define T where "T = buildCellsFilled (int_rect 0 0 sz t) (real_of_int (counts Top)) gap"
  define R where "R = buildCellsFilled (int_rect (t + m) t t m) (real_of_int (counts Right)) gap"
  define B where "B = buildCellsFilled (int_rect 0 (t + m) sz t) (real_of_int (counts Bottom)) gap"
  define E where "E = buildCellsFilled (int_rect 0 t t m) (real_of_int (counts Left)) gap"
  have iM: "inside_box t t m m M" unfolding M_def by (rule inside_box_int_rect)
  have iT: "inside_box 0 0 sz t c" if "c \<in> set T" for c
    using that unfolding T_def by (rule buildCellsFilled_inside)
  have iR: "inside_box (t + m) t t m c" if "c \<in> set R" for c
    using that unfolding R_def by (rule buildCellsFilled_inside)
  have iB: "inside_box 0 (t + m) sz t c" if "c \<in> set B" for c
    using that unfolding B_def by (rule buildCellsFilled_inside)
  have iE: "inside_box 0 t t m c" if "c \<in> set E" for c
    using that unfolding E_def by (rule buildCellsFilled_inside)
  have no: "non_overlapping T" "non_overlapping R" "non_overlapping B" "non_overlapping E"
    unfolding T_def R_def B_def E_def by (rule buildCellsFilled_non_overlapping)+
  have MT: "overlap_area M c = 0" if "c \<in> set T" for c
    by (rule inside_boxes_separated[OF iM iT[OF that]]) (use mt in linarith)
  have MR: "overlap_area M c = 0" if "c \<in> set R" for c
    by (rule inside_boxes_separated[OF iM iR[OF that]]) (use mt in linarith)
  have MB: "overlap_area M c = 0" if "c \<in> set B" for c
    by (rule inside_boxes_separated[OF iM iB[OF that]]) (use mt in linarith)
  have ME: "overlap_area M c = 0" if "c \<in> set E" for c
    by (rule inside_boxes_separated[OF iM iE[OF that]]) (use mt in linarith)
  have TR: "overlap_area a b = 0" if "a \<in> set T" "b \<in> set R" for a b
    by (rule inside_boxes_separated[OF iT[OF that(1)] iR[OF that(2)]]) (use mt in linarith)
  have TB: "overlap_area a b = 0" if "a \<in> set T" "b \<in> set B" for a b
    by (rule inside_boxes_separated[OF iT[OF that(1)] iB[OF that(2)]]) (use mt in linarith)
  have TE: "overlap_area a b = 0" if "a \<in> set T" "b \<in> set E" for a b
    by (rule inside_boxes_separated[OF iT[OF that(1)] iE[OF that(2)]]) (use mt in linarith)
  have RB: "overlap_area a b = 0" if "a \<in> set R" "b \<in> set B" for a b
    by (rule inside_boxes_separated[OF iR[OF that(1)] iB[OF that(2)]]) (use mt in linarith)
  have RE: "overlap_area a b = 0" if "a \<in> set R" "b \<in> set E" for a b
    by (rule inside_boxes_separated[OF iR[OF that(1)] iE[OF that(2)]]) (use mt in linarith)
  have BE: "overlap_area a b = 0" if "a \<in> set B" "b \<in> set E" for a b
    by (rule inside_boxes_separated[OF iB[OF that(1)] iE[OF that(2)]]) (use mt in linarith)
  have 1: "non_overlapping (M # T @ R @ B @ E)"
    unfolding non_overlapping.simps non_overlapping_append set_append
    using no MT MR MB ME TR TB TE RB RE BE by blast
  have wM: "within_canvas sz M"
    by (rule inside_box_within_canvas[OF iM]) (use mt in linarith)+
  have wT: "within_canvas sz c" if "c \<in> set T" for c
    by (rule inside_box_within_canvas[OF iT[OF that]]) (use mt in linarith)+
  have wR: "within_canvas sz c" if "c \<in> set R" for c
    by (rule inside_box_within_canvas[OF iR[OF that]]) (use mt in linarith)+
  have wB: "within_canvas sz c" if "c \<in> set B" for c
    by (rule inside_box_within_canvas[OF iB[OF that]]) (use mt in linarith)+
  have wE: "within_canvas sz c" if "c \<in> set E" for c
    by (rule inside_box_within_canvas[OF iE[OF that]]) (use mt in linarith)+
  have 2: "\<forall>r \<in> set (M # T @ R @ B @ E). within_canvas sz r"
    using wM wT wR wB wE by auto
  have "mainRect (computeCollageLayout options) = M"
    "ringCells (computeCollageLayout options) = T @ R @ B @ E"
    "layout_size (computeCollageLayout options) = sz"
    unfolding L M_def T_def R_def B_def E_def by simp_all
  with 1 2 show ?thesis by simp
qed

lemma example_regions:
  "computeRegions 64 0.5 = (int_rect 16 16 32 32, ring_regions 64 16 32)"
proof -
  have m1: "(32::int) = clamp (round (real_of_int 64 * clamp 0.5 0.05 0.95)) 1 64"
    by (simp add: clamp_def round_def)
  have m: "(32::int) = (if even (64 - 32 :: int) then 32 else if 2 \<le> (32::int) then 32 - 1 else 32 + 1)"
    by simp
  have t: "(16::int) = (64 - 32) div 2" by simp
  show ?thesis by (rule computeRegions_eq(2)[OF _ m1 m t]) simp
qed

lemma example_counts:
  "map (allocateCounts 12 (ring_regions 64 16 32)) [Top, Right, Bottom, Left] = [4, 2, 4, 2]"
  by (simp add: allocateCounts_def ring_regions_def Let_def js_rem_def bumpLoop.simps)

lemma example_row:
  "buildCellsFilled (int_rect 0 py 64 16) 4 0 =
     [int_rect 0 py 16 16, int_rect 16 py 16 16, int_rect 32 py 16 16, int_rect 48 py 16 16]"
proof -
  have pos: "0 < ln (12::real)" "0 < ln (6::real)" by simp_all
  show ?thesis by (simp add: packer_eval) (use pos in linarith)
qed

lemma example_column:
  "buildCellsFilled (int_rect px 16 16 32) 2 0 = [int_rect px 16 16 16, int_rect px 32 16 16]"
  by (simp add: packer_eval)

lemma example_layout:
  "computeCollageLayout example_options =
     \<lparr>layout_size = 64, layout_gap = 0, mainRect = int_rect 16 16 32 32,
      ringCells =
        [int_rect 0 0 16 16, int_rect 16 0 16 16, int_rect 32 0 16 16, int_rect 48 0 16 16,
         int_rect 48 16 16 16, int_rect 48 32 16 16,
         int_rect 0 48 16 16, int_rect 16 48 16 16, int_rect 32 48 16 16, int_rect 48 48 16 16,
         int_rect 0 16 16 16, int_rect 0 32 16 16]\<rparr>"
proof -
  have sz: "(64::int) = max 64 \<lfloor>opt_size example_options\<rfloor>"
    and gap: "(0::real) = clamp (opt_gap example_options) 0 (real_of_int \<lfloor>real_of_int 64 / 8\<rfloor>)"
    and N: "(12::int) = max 0 \<lfloor>opt_othersCount example_options\<rfloor>"
    and reg: "computeRegions 64 (opt_mainRatio example_options) = (int_rect 16 16 32 32, ring_regions 64 16 32)"
    using example_regions by (simp_all add: example_options_def clamp_def)
  have c: "allocateCounts (real_of_int 12) (ring_regions 64 16 32) Top = 4"
    "allocateCounts (real_of_int 12) (ring_regions 64 16 32) Right = 2"
    "allocateCounts (real_of_int 12) (ring_regions 64 16 32) Bottom = 4"
    "allocateCounts (real_of_int 12) (ring_regions 64 16 32) Left = 2"
    using example_counts by simp_all
  show ?thesis
    unfolding computeCollageLayout_eq[OF sz gap N reg refl] c
    using example_row[of 0] example_row[of 48] example_column[of 48] example_column[of 0]
    by simp
qed


theorem computeCollageLayout_disjoint_witness:
  "int_rect 48 32 16 16 \<in> set (mainRect (computeCollageLayout example_options)
                                 # ringCells (computeCollageLayout example_options))
   \<and> within_canvas (layout_size (computeCollageLayout example_options)) (int_rect 48 32 16 16)
   \<and> non_overlapping (mainRect (computeCollageLayout example_options)
                        # ringCells (computeCollageLayout example_options))"
proof -
  have m: "int_rect 48 32 16 16 \<in> set (mainRect (computeCollageLayout example_options)
                                 # ringCells (computeCollageLayout example_options))"
    unfolding example_layout by simp
  from computeCollageLayout_disjoint[of example_options] m show ?thesis by blast
qed



subsection \<open>Allocation by largest remainder\<close>

lemma sum_list_insort_key:
  "sum_list (map f (insort_key k x xs)) = f x + sum_list (map f xs)"
  for f :: "'a \<Rightarrow> 'b::comm_monoid_add"
  by (induction xs) (simp_all add: add.left_commute)

lemma sum_list_sort_key:
  "sum_list (map f (sort_key k xs)) = sum_list (map f xs)"
  for f :: "'a \<Rightarrow> 'b::comm_monoid_add"
  by (induction xs) (simp_all add: sum_list_insort_key)

lemma js_rem_small: "0 \<le> i \<Longrightarrow> i < n \<Longrightarrow> js_rem i n = i"
  by (auto simp: js_rem_def sgn_if)

lemma bumpLoop_nth:
  assumes "0 \<le> i" and "remaining \<le> int (length raw)"
  shows "length (bumpLoop i remaining raw) = length raw
       \<and> (\<forall>j < length raw. bumpLoop i remaining raw ! j =
             (if i \<le> int j \<and> int j < remaining
              then (raw ! j)\<lparr>share_base := share_base (raw ! j) + 1\<rparr> else raw ! j))"
  using assms
proof (induction "nat (remaining - i)" arbitrary: i raw)
  case 0
  then have "\<not> i < remaining" by simp
  then show ?case by (subst (1 2) bumpLoop.simps) auto
next
  case (Suc k)
  then have lt: "i < remaining" by linarith
  with Suc.prems have il: "i < int (length raw)" by simp
  define raw' where "raw' = raw[nat i := (raw ! nat i)\<lparr>share_base := share_base (raw ! nat i) + 1\<rparr>]"
  have step: "bumpLoop i remaining raw = bumpLoop (i + 1) remaining raw'"
    using lt js_rem_small[OF Suc.prems(1) il]
    by (subst bumpLoop.simps) (simp add: Let_def raw'_def)
  have k: "k = nat (remaining - (i + 1))" using Suc.hyps(2) by linarith
  have len': "length raw' = length raw" by (simp add: raw'_def)
  from Suc.hyps(1)[OF k, of raw'] Suc.prems len'
  have ih: "length (bumpLoop (i + 1) remaining raw') = length raw"
    "\<And>j. j < length raw \<Longrightarrow> bumpLoop (i + 1) remaining raw' ! j =
             (if i + 1 \<le> int j \<and> int j < remaining
              then (raw' ! j)\<lparr>share_base := share_base (raw' ! j) + 1\<rparr> else raw' ! j)"
    by simp_all
  show ?case
  proof (intro conjI allI impI)
    show "length (bumpLoop i remaining raw) = length raw" unfolding step by (rule ih(1))
    fix j assume j: "j < length raw"
    show "bumpLoop i remaining raw ! j =
             (if i \<le> int j \<and> int j < remaining
              then (raw ! j)\<lparr>share_base := share_base (raw ! j) + 1\<rparr> else raw ! j)"
    proof (cases "j = nat i")
      case True
      then have "\<not> i + 1 \<le> int j" "i \<le> int j" "int j < remaining"
        using Suc.prems(1) lt by simp_all
      then show ?thesis unfolding step ih(2)[OF j] using True j by (simp add: raw'_def)
    next
      case False
      then have "raw' ! j = raw ! j" by (simp add: raw'_def)
      moreover have "(i + 1 \<le> int j) = (i \<le> int j)" using False Suc.prems(1) by auto
      ultimately show ?thesis unfolding step ih(2)[OF j] by simp
    qed
  qed
qed

lemma foldl_out_other:
  "nm \<notin> share_name ` set ys \<Longrightarrow>
     foldl (\<lambda>out r. out(share_name r := share_base r)) out0 ys nm = out0 nm"
  by (induction ys arbitrary: out0) auto

lemma foldl_out_member:
  assumes "distinct (map share_name ys)" and "s \<in> set ys"
  shows "foldl (\<lambda>out r. out(share_name r := share_base r)) out0 ys (share_name s) = share_base s"
  using assms
proof (induction ys arbitrary: out0)
  case Nil
  then show ?case by simp
next
  case (Cons y ys)
  show ?case
  proof (cases "s = y")
    case True
    have "share_name y \<notin> share_name ` set ys" using Cons.prems(1) by simp
    then have "foldl (\<lambda>out r. out(share_name r := share_base r))
                 (out0(share_name y := share_base y)) ys (share_name y)
               = (out0(share_name y := share_base y)) (share_name y)"
      by (rule foldl_out_other)
    also have "\<dots> = share_base y" by simp
    finally show ?thesis unfolding True foldl_Cons .
  next
    case False
    with Cons.prems have "distinct (map share_name ys)" "s \<in> set ys" by simp_all
    from Cons.IH[OF this] show ?thesis unfolding foldl_Cons .
  qed
qed

lemma allocate_core:
  fixes raw :: "Share list" and N :: int
  assumes names: "map share_name raw = [Top, Right, Bottom, Left]"
    and fl: "\<forall>s \<in> set raw. share_base s = \<lfloor>share_exact s\<rfloor>
                \<and> share_frac s = share_exact s - real_of_int \<lfloor>share_exact s\<rfloor>"
    and total: "sum_list (map share_exact raw) = real_of_int N"
    and remaining: "remaining = N - sum_list (map share_base raw)"
    and bumped: "bumped = bumpLoop 0 remaining (sort_key (\<lambda>r. - share_frac r) raw)"
    and out: "out = foldl (\<lambda>out r. out(share_name r := share_base r)) (\<lambda>_. 0) bumped"
  shows "out Top + out Right + out Bottom + out Left = N"
    and "\<forall>s \<in> set raw. \<lfloor>share_exact s\<rfloor> \<le> out (share_name s) \<and> out (share_name s) \<le> \<lceil>share_exact s\<rceil>"
proof -
  define srt where "srt = sort_key (\<lambda>r. - share_frac r) raw"
  have "length (map share_name raw) = 4" unfolding names by simp
  then have len_raw: "length raw = 4" by simp
  have len: "length srt = 4" by (simp add: srt_def len_raw)
  have set_sorted: "set srt = set raw" by (simp add: srt_def)
  have frac: "0 \<le> share_frac s \<and> share_frac s < 1" if "s \<in> set raw" for s
    using fl that by (simp) linarith
  have "sum_list (map share_frac raw) = sum_list (map share_exact raw) - real_of_int (sum_list (map share_base raw))"
    using fl by (induction raw) simp_all
  then have rem_raw: "real_of_int remaining = sum_list (map share_frac raw)"
    unfolding total remaining by simp
  then have rem_sorted: "real_of_int remaining = sum_list (map share_frac srt)"
    by (simp add: srt_def sum_list_sort_key)
  have rem_idx: "real_of_int remaining = (\<Sum>i = 0..<4. share_frac (srt ! i))"
    unfolding rem_sorted using len by (simp add: sum_list_sum_nth)
  have fr: "0 \<le> share_frac (srt ! i) \<and> share_frac (srt ! i) < 1" if "i < 4" for i
    using frac[of "srt ! i"] set_sorted len that by (metis nth_mem)
  have "0 \<le> (\<Sum>i = 0..<4. share_frac (srt ! i))" by (intro sum_nonneg) (use fr in simp)
  then have rem0: "0 \<le> remaining" unfolding rem_idx[symmetric] by simp
  have "(\<Sum>i = 0..<4. share_frac (srt ! i)) < (\<Sum>i = 0..<(4::nat). (1::real))"
    by (intro sum_strict_mono) (use fr in simp_all)
  then have rem4: "remaining < 4" unfolding rem_idx[symmetric] by simp
  have desc: "share_frac (srt ! j) \<le> share_frac (srt ! i)" if "i \<le> j" "j < 4" for i j
  proof -
    have "sorted (map (\<lambda>r. - share_frac r) srt)" unfolding srt_def by (rule sorted_sort_key)
    from sorted_nth_mono[OF this, of i j] that len show ?thesis by simp
  qed
  have pos: "0 < share_frac (srt ! j)" if "int j < remaining" for j
  proof (rule ccontr)
    assume "\<not> 0 < share_frac (srt ! j)"
    then have le0: "share_frac (srt ! j) \<le> 0" by simp
    have j4: "j < 4" using that rem4 by simp
    have zero: "share_frac (srt ! i) = 0" if "j \<le> i" "i < 4" for i
      using desc[OF that] fr[OF that(2)] le0 by linarith
    have "{0..<4::nat} = {0..<j} \<union> {j..<4}" using j4 by auto
    then have "(\<Sum>i = 0..<4. share_frac (srt ! i))
        = (\<Sum>i = 0..<j. share_frac (srt ! i)) + (\<Sum>i = j..<4. share_frac (srt ! i))"
      by (simp add: sum.union_disjoint)
    also have "(\<Sum>i = j..<4. share_frac (srt ! i)) = 0"
      by (intro sum.neutral) (use zero in simp)
    also have "(\<Sum>i = 0..<j. share_frac (srt ! i)) \<le> (\<Sum>i = 0..<j. 1)"
    proof (rule sum_mono)
      fix i assume "i \<in> {0..<j}"
      then have "i < 4" using j4 by simp
      from fr[OF this] show "share_frac (srt ! i) \<le> 1" by simp
    qed
    finally have "real_of_int remaining \<le> real j" unfolding rem_idx by simp
    then have "remaining \<le> int j" by linarith
    with that show False by simp
  qed
  have rlen: "remaining \<le> int (length srt)" using rem4 len by simp
  note bl = bumpLoop_nth[OF order_refl rlen, folded srt_def]
  have blen: "length bumped = 4" unfolding bumped srt_def[symmetric] using bl len by simp
  have bnth: "bumped ! j = (if int j < remaining
              then (srt ! j)\<lparr>share_base := share_base (srt ! j) + 1\<rparr> else srt ! j)"
    if "j < 4" for j
    unfolding bumped srt_def[symmetric] using bl that len by simp
  have bname: "share_name (bumped ! j) = share_name (srt ! j)" if "j < 4" for j
    unfolding bnth[OF that] by simp
  have bexact: "share_exact (bumped ! j) = share_exact (srt ! j)" if "j < 4" for j
    unfolding bnth[OF that] by simp
  have bbase: "share_base (bumped ! j) = share_base (srt ! j) + (if int j < remaining then 1 else 0)"
    if "j < 4" for j
    unfolding bnth[OF that] by simp
  have names_b: "map share_name bumped = map share_name srt"
    by (rule nth_equalityI) (use blen len bname in simp_all)
  have "distinct (map share_name raw)" unfolding names by simp
  then have "distinct raw" "inj_on share_name (set raw)" by (simp_all add: distinct_map)
  then have dist_sorted: "distinct (map share_name srt)"
    unfolding distinct_map set_sorted by (simp add: srt_def)
  then have dist_b: "distinct (map share_name bumped)" unfolding names_b .
  have outb: "out (share_name (srt ! j)) = share_base (bumped ! j)" if "j < 4" for j
  proof -
    have "bumped ! j \<in> set bumped" using that blen by simp
    from foldl_out_member[OF dist_b this, of "\<lambda>_. 0"] show ?thesis
      unfolding out bname[OF that] .
  qed
  show "\<forall>s \<in> set raw. \<lfloor>share_exact s\<rfloor> \<le> out (share_name s) \<and> out (share_name s) \<le> \<lceil>share_exact s\<rceil>"
  proof
    fix s assume "s \<in> set raw"
    then have "s \<in> set srt" using set_sorted by simp
    then obtain j where j: "j < 4" "srt ! j = s" using len by (metis in_set_conv_nth)
    have b: "share_base s = \<lfloor>share_exact s\<rfloor>"
      "share_frac s = share_exact s - real_of_int \<lfloor>share_exact s\<rfloor>"
      using fl \<open>s \<in> set raw\<close> by simp_all
    have o: "out (share_name s) = \<lfloor>share_exact s\<rfloor> + (if int j < remaining then 1 else 0)"
      using outb[OF j(1)] bbase[OF j(1)] j(2) b(1) by simp
    show "\<lfloor>share_exact s\<rfloor> \<le> out (share_name s) \<and> out (share_name s) \<le> \<lceil>share_exact s\<rceil>"
    proof (cases "int j < remaining")
      case True
      from pos[OF True] j(2) b(2) have "real_of_int \<lfloor>share_exact s\<rfloor> < share_exact s" by simp
      then have "\<lfloor>share_exact s\<rfloor> < \<lceil>share_exact s\<rceil>" by (simp add: less_ceiling_iff)
      with True o show ?thesis by simp
    next
      case False
      with o show ?thesis by (simp add: floor_le_ceiling)
    qed
  qed
  have "sum_list (map share_base bumped)
      = sum_list (map (\<lambda>j. share_base (srt ! j) + (if int j < remaining then 1 else 0)) [0..<4])"
  proof -
    have "map share_base bumped
        = map (\<lambda>j. share_base (srt ! j) + (if int j < remaining then 1 else 0)) [0..<4]"
      by (rule nth_equalityI) (use blen bbase in simp_all)
    then show ?thesis by simp
  qed
  also have "\<dots> = sum_list (map (\<lambda>j. share_base (srt ! j)) [0..<4])
                 + sum_list (map (\<lambda>j. 0 + (if int j < remaining then 1 else 0)) [0..<4])"
    by (simp add: sum_list_addf)
  also have "sum_list (map (\<lambda>j. 0 + (if int j < remaining then 1 else 0)) [0..<4]) = remaining"
    unfolding sum_list_map_upt_indicator using rem0 rem4 by simp
  also have "map (\<lambda>j. share_base (srt ! j)) [0..<4] = map share_base srt"
    using len by (intro nth_equalityI) simp_all
  also have "sum_list (map share_base srt) = sum_list (map share_base raw)"
    by (simp add: srt_def sum_list_sort_key)
  finally have sb: "sum_list (map share_base bumped) = N" unfolding remaining by simp
  have "map share_base bumped = map (\<lambda>s. out (share_name s)) srt"
    by (rule nth_equalityI) (use blen len outb in simp_all)
  then have "sum_list (map share_base bumped) = sum_list (map (\<lambda>s. out (share_name s)) srt)"
    by simp
  also have "\<dots> = sum_list (map (\<lambda>s. out (share_name s)) raw)"
    by (simp add: srt_def sum_list_sort_key)
  also have "\<dots> = sum_list (map out (map share_name raw))" by (simp add: comp_def)
  also have "\<dots> = out Top + out Right + out Bottom + out Left" unfolding names by simp
  finally show "out Top + out Right + out Bottom + out Left = N" using sb by simp
qed

lemma sum_list_scaled:
  "(\<Sum>r\<leftarrow>xs. f r / A * k) = (\<Sum>r\<leftarrow>xs. f r) / A * k" for A k :: real
  by (induction xs) (simp_all add: add_divide_distrib distrib_right)

lemma allocateCounts_ring:
  assumes "1 \<le> N" and "1 \<le> sz" and "1 \<le> t" and "1 \<le> m"
    and A: "A = real_of_int (2 * sz * t + 2 * t * m)"
    and c: "c = allocateCounts (real_of_int N) (ring_regions sz t m)"
  shows "c Top + c Right + c Bottom + c Left = N"
    and "\<forall>r \<in> set (ring_regions sz t m).
           \<lfloor>region_area r / A * real_of_int N\<rfloor> \<le> c (region_name r)
           \<and> c (region_name r) \<le> \<lceil>region_area r / A * real_of_int N\<rceil>"
proof -
  let ?regions = "ring_regions sz t m"
  have ringArea: "foldl (\<lambda>s r. s + region_area r) 0 ?regions = A"
    unfolding A by (simp add: ring_regions_def)
  have "0 < 2 * sz * t + 2 * t * m" using assms(2-4) by (simp add: add_pos_pos)
  then have Apos: "0 < A" unfolding A by (simp only: of_int_0_less_iff)
  have n0: "max 0 \<lfloor>real_of_int N\<rfloor> = N" using assms(1) by simp
  define raw where "raw = map (\<lambda>r. \<lparr>share_name = region_name r,
                                   share_exact = region_area r / A * real_of_int N,
                                   share_base = \<lfloor>region_area r / A * real_of_int N\<rfloor>,
                                   share_frac = region_area r / A * real_of_int N
                                     - real_of_int \<lfloor>region_area r / A * real_of_int N\<rfloor>\<rparr>) ?regions"
  define remaining where "remaining = N - sum_list (map share_base raw)"
  define bumped where "bumped = bumpLoop 0 remaining (sort_key (\<lambda>r. - share_frac r) raw)"
  define out where "out = foldl (\<lambda>out r. out(share_name r := share_base r)) (\<lambda>_. 0) bumped"
  have cond: "(N = 0 \<or> A \<le> 0) = False" using assms(1) Apos by simp
  have used: "foldl (\<lambda>s r. s + share_base r) 0 raw = sum_list (map share_base raw)"
    by (simp add: foldl_add_sum_list)
  have unf: "c = (if out Top + out Right + out Bottom + out Left \<noteq> N
                  then out(Top := out Top + (N - (out Top + out Right + out Bottom + out Left)))
                  else out)"
    unfolding c allocateCounts_def Let_def n0 ringArea cond raw_def[symmetric] used
      remaining_def[symmetric] bumped_def[symmetric] out_def[symmetric]
    by (simp only: if_False foldl.simps add_0)
  have names: "map share_name raw = [Top, Right, Bottom, Left]"
    by (simp add: raw_def ring_regions_def)
  have fl: "\<forall>s \<in> set raw. share_base s = \<lfloor>share_exact s\<rfloor>
                \<and> share_frac s = share_exact s - real_of_int \<lfloor>share_exact s\<rfloor>"
    by (auto simp: raw_def)
  have "sum_list (map share_exact raw) = (\<Sum>r\<leftarrow>?regions. region_area r / A * real_of_int N)"
    by (simp add: raw_def comp_def)
  also have "\<dots> = (\<Sum>r\<leftarrow>?regions. region_area r) / A * real_of_int N"
    by (rule sum_list_scaled)
  also have "(\<Sum>r\<leftarrow>?regions. region_area r) = A"
    unfolding A by (simp add: ring_regions_def)
  finally have total: "sum_list (map share_exact raw) = real_of_int N" using Apos by simp
  note core = allocate_core[OF names fl total remaining_def bumped_def out_def]
  have "c = out" unfolding unf using core(1) by simp
  with core(1) show "c Top + c Right + c Bottom + c Left = N" by simp
  show "\<forall>r \<in> set ?regions.
           \<lfloor>region_area r / A * real_of_int N\<rfloor> \<le> c (region_name r)
           \<and> c (region_name r) \<le> \<lceil>region_area r / A * real_of_int N\<rceil>"
  proof
    fix r assume "r \<in> set ?regions"
    then have "\<lparr>share_name = region_name r,
                 share_exact = region_area r / A * real_of_int N,
                 share_base = \<lfloor>region_area r / A * real_of_int N\<rfloor>,
                 share_frac = region_area r / A * real_of_int N
                    - real_of_int \<lfloor>region_area r / A * real_of_int N\<rfloor>\<rparr> \<in> set raw"
      unfolding raw_def set_map by (rule imageI)
    from core(2)[rule_format, OF this] show
      "\<lfloor>region_area r / A * real_of_int N\<rfloor> \<le> c (region_name r)
           \<and> c (region_name r) \<le> \<lceil>region_area r / A * real_of_int N\<rceil>"
      unfolding \<open>c = out\<close> by simp
  qed
qed

subsection \<open>Number of ring cells\<close>

lemma region_cells_length:
  assumes "0 \<le> c" and "1 \<le> W" and "1 \<le> H"
  shows "int (length (buildCellsFilled (int_rect px py W H) (real_of_int c) gap))
           = (if c \<le> W * H then c else 0)"
proof -
  have n: "c = max 0 \<lfloor>real_of_int c\<rfloor>" using assms(1) by simp
  have f: "fits (int_rect px py W H) c \<longleftrightarrow> 1 \<le> c \<and> c \<le> W * H"
    using assms(2,3) by (simp add: fits_def)
  have WH: "0 \<le> W * H" using assms(2,3) by simp
  from buildCellsFilled_cases[OF n, of "int_rect px py W H" gap] show ?thesis
  proof
    assume "fits (int_rect px py W H) c
      \<and> packed (int_rect px py W H) c (max 0 \<lfloor>gap\<rfloor>)
          (buildCellsFilled (int_rect px py W H) (real_of_int c) gap)"
    then show ?thesis using packed_length f by auto
  next
    assume "\<not> fits (int_rect px py W H) c
      \<and> buildCellsFilled (int_rect px py W H) (real_of_int c) gap = []"
    then show ?thesis using f assms(1) WH by auto
  qed
qed

lemma ringCells_length_aux:
  assumes shape: "1 \<le> m" "m \<le> sz" "0 \<le> t" "2 * t = sz - m" "64 \<le> sz"
    and N: "0 \<le> N"
    and counts: "counts = allocateCounts (real_of_int N) (ring_regions sz t m)"
    and cells: "cells =
        buildCellsFilled (int_rect 0 0 sz t) (real_of_int (counts Top)) gap
        @ buildCellsFilled (int_rect (t + m) t t m) (real_of_int (counts Right)) gap
        @ buildCellsFilled (int_rect 0 (t + m) sz t) (real_of_int (counts Bottom)) gap
        @ buildCellsFilled (int_rect 0 t t m) (real_of_int (counts Left)) gap"
  shows "int (length cells) = N \<longleftrightarrow> N \<le> sz * sz - m * m"
proof -
  have area: "sz * sz - m * m = 2 * sz * t + 2 * t * m"
  proof -
    have "sz * sz - m * m = (sz - m) * (sz + m)" by (simp add: algebra_simps)
    also have "\<dots> = 2 * t * (sz + m)" using shape(4) by simp
    finally show ?thesis by (simp add: algebra_simps)
  qed
  have empty: "buildCellsFilled rect (real_of_int 0) gap = []" for rect
    by (simp add: buildCellsFilled_def)
  show ?thesis
  proof (cases "N = 0 \<or> t = 0")
    case True
    have "sum_list (map region_area (ring_regions sz t m)) \<le> 0" if "t = 0"
      using that by (simp add: ring_regions_def)
    with True have "counts = (\<lambda>_. 0)"
      unfolding counts by (intro allocateCounts_degenerate) auto
    then have len: "length cells = 0" unfolding cells using empty by simp
    from True show ?thesis
    proof
      assume "N = 0"
      moreover have "0 \<le> 2 * sz * t + 2 * t * m" using shape by simp
      ultimately show ?thesis using len area by simp
    next
      assume "t = 0"
      then show ?thesis using len area N by auto
    qed
  next
    case False
    then have N1: "1 \<le> N" and t1: "1 \<le> t" using N shape(3) by simp_all
    have sz1: "1 \<le> sz" using shape(5) by simp
    define A where "A = real_of_int (2 * sz * t + 2 * t * m)"
    note ring = allocateCounts_ring[OF N1 sz1 t1 shape(1) A_def counts]
    have "0 < 2 * sz * t + 2 * t * m" using sz1 t1 shape(1) by (simp add: add_pos_pos)
    then have Apos: "0 < A" unfolding A_def by (simp only: of_int_0_less_iff)
    have bound: "0 \<le> counts nm \<and> (N \<le> sz * sz - m * m \<longrightarrow> counts nm \<le> a)"
      if "\<lparr>region_name = nm, region_rect = rect, region_area = real_of_int a\<rparr>
            \<in> set (ring_regions sz t m)" and "0 \<le> a" for nm rect a
    proof -
      let ?e = "real_of_int a / A * real_of_int N"
      from ring(2)[rule_format, OF that(1)]
      have fl: "\<lfloor>?e\<rfloor> \<le> counts nm" and ce: "counts nm \<le> \<lceil>?e\<rceil>" by simp_all
      have "0 \<le> ?e" using that(2) Apos N1 by simp
      then have "0 \<le> \<lfloor>?e\<rfloor>" by simp
      with fl have 1: "0 \<le> counts nm" by linarith
      have 2: "counts nm \<le> a" if "N \<le> sz * sz - m * m"
      proof -
        have "real_of_int N \<le> A" unfolding A_def area[symmetric] using that by (simp only: of_int_le_iff)
        then have "real_of_int N / A \<le> 1" using Apos by simp
        then have "real_of_int a * (real_of_int N / A) \<le> real_of_int a * 1"
          using \<open>0 \<le> a\<close> by (intro mult_left_mono) simp_all
        then have "?e \<le> real_of_int a" by simp
        then have "\<lceil>?e\<rceil> \<le> a" by (simp add: ceiling_le_iff)
        with ce show ?thesis by linarith
      qed
      from 1 2 show ?thesis by blast
    qed
    have bT: "0 \<le> counts Top \<and> (N \<le> sz * sz - m * m \<longrightarrow> counts Top \<le> sz * t)"
      by (rule bound[of Top "int_rect 0 0 sz t"]) (use sz1 t1 in \<open>simp_all add: ring_regions_def\<close>)
    have bR: "0 \<le> counts Right \<and> (N \<le> sz * sz - m * m \<longrightarrow> counts Right \<le> t * m)"
      by (rule bound[of Right "int_rect (t + m) t t m"]) (use shape(1) t1 in \<open>simp_all add: ring_regions_def\<close>)
    have bB: "0 \<le> counts Bottom \<and> (N \<le> sz * sz - m * m \<longrightarrow> counts Bottom \<le> sz * t)"
      by (rule bound[of Bottom "int_rect 0 (t + m) sz t"]) (use sz1 t1 in \<open>simp_all add: ring_regions_def\<close>)
    have bL: "0 \<le> counts Left \<and> (N \<le> sz * sz - m * m \<longrightarrow> counts Left \<le> t * m)"
      by (rule bound[of Left "int_rect 0 t t m"]) (use shape(1) t1 in \<open>simp_all add: ring_regions_def\<close>)
    have len: "int (length cells) =
        (if counts Top \<le> sz * t then counts Top else 0)
        + (if counts Right \<le> t * m then counts Right else 0)
        + (if counts Bottom \<le> sz * t then counts Bottom else 0)
        + (if counts Left \<le> t * m then counts Left else 0)"
      unfolding cells length_append of_nat_add
      using region_cells_length[of "counts Top" sz t 0 0 gap]
        region_cells_length[of "counts Right" t m "t + m" t gap]
        region_cells_length[of "counts Bottom" sz t 0 "t + m" gap]
        region_cells_length[of "counts Left" t m 0 t gap]
        bT bR bB bL sz1 t1 shape(1)
      by simp
    show ?thesis
    proof
      assume "N \<le> sz * sz - m * m"
      with bT bR bB bL have "counts Top \<le> sz * t" "counts Right \<le> t * m"
        "counts Bottom \<le> sz * t" "counts Left \<le> t * m" by simp_all
      then show "int (length cells) = N" unfolding len using ring(1) by simp
    next
      assume eq: "int (length cells) = N"
      have all: "counts Top \<le> sz * t \<and> counts Right \<le> t * m
        \<and> counts Bottom \<le> sz * t \<and> counts Left \<le> t * m"
      proof (rule ccontr)
        assume "\<not> ?thesis"
        moreover have "(if c \<le> a then c else 0) \<le> c
            \<and> (\<not> c \<le> a \<longrightarrow> (if c \<le> a then c else 0) < c)"
          if "0 \<le> c" "0 \<le> a" for c a :: int
          using that by auto
        note this[of "counts Top" "sz * t"] this[of "counts Right" "t * m"]
          this[of "counts Bottom" "sz * t"] this[of "counts Left" "t * m"]
        moreover have "0 \<le> sz * t" "0 \<le> t * m" using sz1 t1 shape(1) by simp_all
        ultimately have "int (length cells) < counts Top + counts Right + counts Bottom + counts Left"
          unfolding len using bT bR bB bL by linarith
        with eq ring(1) show False by simp
      qed
      then have "counts Top + counts Right + counts Bottom + counts Left \<le> 2 * sz * t + 2 * t * m"
        by linarith
      then show "N \<le> sz * sz - m * m" unfolding ring(1) area .
    qed
  qed
qed

lemma crowded_regions:
  "computeRegions 64 0.95 = (int_rect 2 2 60 60, ring_regions 64 2 60)"
proof -
  have m1: "(61::int) = clamp (round (real_of_int 64 * clamp 0.95 0.05 0.95)) 1 64"
    by (simp add: clamp_def round_def)
  have m: "(60::int) = (if even (64 - 61 :: int) then 61 else if 2 \<le> (61::int) then 61 - 1 else 61 + 1)"
    by simp
  have t: "(2::int) = (64 - 60) div 2" by simp
  show ?thesis by (rule computeRegions_eq(2)[OF _ m1 m t]) simp
qed

lemma crowded_counts:
  "map (allocateCounts 1000 (ring_regions 64 2 60)) [Top, Right, Bottom, Left] = [258, 242, 258, 242]"
  by (simp add: allocateCounts_def ring_regions_def Let_def js_rem_def bumpLoop.simps)

lemma crowded_layout:
  "computeCollageLayout crowded_options =
     \<lparr>layout_size = 64, layout_gap = 0, mainRect = int_rect 2 2 60 60, ringCells = []\<rparr>"
proof -
  have sz: "(64::int) = max 64 \<lfloor>opt_size crowded_options\<rfloor>"
    and gap: "(0::real) = clamp (opt_gap crowded_options) 0 (real_of_int \<lfloor>real_of_int 64 / 8\<rfloor>)"
    and N: "(1000::int) = max 0 \<lfloor>opt_othersCount crowded_options\<rfloor>"
    and reg: "computeRegions 64 (opt_mainRatio crowded_options) = (int_rect 2 2 60 60, ring_regions 64 2 60)"
    using crowded_regions by (simp_all add: crowded_options_def clamp_def)
  have c: "allocateCounts (real_of_int 1000) (ring_regions 64 2 60) Top = 258"
    "allocateCounts (real_of_int 1000) (ring_regions 64 2 60) Right = 242"
    "allocateCounts (real_of_int 1000) (ring_regions 64 2 60) Bottom = 258"
    "allocateCounts (real_of_int 1000) (ring_regions 64 2 60) Left = 242"
    using crowded_counts by simp_all
  have e: "buildCellsFilled (int_rect 0 0 64 2) (real_of_int 258) 0 = []"
    "buildCellsFilled (int_rect (2 + 60) 2 2 60) (real_of_int 242) 0 = []"
    "buildCellsFilled (int_rect 0 (2 + 60) 64 2) (real_of_int 258) 0 = []"
    "buildCellsFilled (int_rect 0 2 2 60) (real_of_int 242) 0 = []"
    using region_cells_length[of 258 64 2 0 0 0] region_cells_length[of 242 2 60 "2 + 60" 2 0]
      region_cells_length[of 258 64 2 0 "2 + 60" 0] region_cells_length[of 242 2 60 0 2 0]
    by simp_all
  show ?thesis
    unfolding computeCollageLayout_eq[OF sz gap N reg refl] c e by simp
qed

text \<open>
  C1, as stated, fails: with \<open>size = 64\<close> and \<open>mainRatio = 0.95\<close> the ring has
  \<open>64\<^sup>2 - 60\<^sup>2 = 496\<close> pixels; for \<open>othersCount = 1000\<close> every region is given more cells than it
  has pixels, no region can be packed, and the layout has no ring cells at all.
\<close>

theorem ringCells_drop_counterexample:
  "max 0 \<lfloor>opt_othersCount crowded_options\<rfloor> = 1000
   \<and> ringCells (computeCollageLayout crowded_options) = []
   \<and> int (length (ringCells (computeCollageLayout crowded_options)))
       \<noteq> max 0 \<lfloor>opt_othersCount crowded_options\<rfloor>"
  unfolding crowded_layout by (simp add: crowded_options_def)

text \<open>
  C1, amended. With \<open>N = max 0 \<lfloor>othersCount\<rfloor>\<close>, the layout has exactly \<open>N\<close> ring cells if and only
  if \<open>N\<close> is at most the number of pixels of the ring, \<open>size\<^sup>2 - mainSize\<^sup>2\<close> (\<open>size\<close> and the
  edge of the main square as in the returned layout). The allocation is computed in exact
  arithmetic.
\<close>

theorem ringCells_length:
  "int (length (ringCells (computeCollageLayout options))) = max 0 \<lfloor>opt_othersCount options\<rfloor>
   \<longleftrightarrow>
   real_of_int (max 0 \<lfloor>opt_othersCount options\<rfloor>)
     \<le> real_of_int (layout_size (computeCollageLayout options))
         * real_of_int (layout_size (computeCollageLayout options))
       - rect_width (mainRect (computeCollageLayout options))
         * rect_width (mainRect (computeCollageLayout options))"
proof -
  obtain sz gap N t m counts where
    sz: "sz = max 64 \<lfloor>opt_size options\<rfloor>"
    and "gap = clamp (opt_gap options) 0 (real_of_int \<lfloor>real_of_int sz / 8\<rfloor>)"
    and N: "N = max 0 \<lfloor>opt_othersCount options\<rfloor>"
    and mt: "1 \<le> m" "m \<le> sz" "0 \<le> t" "2 * t = sz - m"
    and "computeRegions sz (opt_mainRatio options) = (int_rect t t m m, ring_regions sz t m)"
    and counts: "counts = allocateCounts (real_of_int N) (ring_regions sz t m)"
    and L: "computeCollageLayout options =
     \<lparr>layout_size = sz, layout_gap = gap, mainRect = int_rect t t m m,
      ringCells =
        buildCellsFilled (int_rect 0 0 sz t) (real_of_int (counts Top)) gap
        @ buildCellsFilled (int_rect (t + m) t t m) (real_of_int (counts Right)) gap
        @ buildCellsFilled (int_rect 0 (t + m) sz t) (real_of_int (counts Bottom)) gap
        @ buildCellsFilled (int_rect 0 t t m) (real_of_int (counts Left)) gap\<rparr>"
    by (rule computeCollageLayout_shape[of options])
  have "64 \<le> sz" "0 \<le> N" unfolding sz N by simp_all
  from ringCells_length_aux[OF mt this counts refl, of gap]
  have "int (length (ringCells (computeCollageLayout options))) = N \<longleftrightarrow> N \<le> sz * sz - m * m"
    unfolding L by simp
  moreover have "real_of_int N \<le> real_of_int sz * real_of_int sz - real_of_int m * real_of_int m
      \<longleftrightarrow> N \<le> sz * sz - m * m"
    by (simp only: of_int_mult[symmetric] of_int_diff[symmetric] of_int_le_iff)
  ultimately show ?thesis unfolding N[symmetric] L by (simp add: int_rect_def)
qed

theorem ringCells_length_witness:
  "max 0 \<lfloor>opt_othersCount example_options\<rfloor> = 12
   \<and> real_of_int 12 \<le> real_of_int 64 * real_of_int 64 - 32 * 32
   \<and> int (length (ringCells (computeCollageLayout example_options))) = 12"
  using ringCells_length[of example_options]
  unfolding example_layout by (simp add: example_options_def int_rect_def)

subsection \<open>Render pipeline\<close>

lemma decodeAndDraw_draw_ops:
  assumes "\<forall>f. decodeImage env f \<noteq> None"
  shows "decodeAndDraw env item dest = Some (draw_ops env item dest)"
proof -
  from assms obtain w h where "decodeImage env (item_file item) = Some (w, h)" by fastforce
  then show ?thesis by (simp add: decodeAndDraw_def draw_ops_def)
qed

lemma ringLoop_all_drawn:
  assumes "\<forall>k. \<not> aborted env k" and "\<forall>f. decodeImage env f \<noteq> None"
    and "length othersOrdered \<le> length cells"
  shows "ringLoop env othersOrdered cells idx ops =
           (ops @ concat (map (\<lambda>k. draw_ops env (othersOrdered ! k) (cells ! k))
                            [idx..<length othersOrdered]), None)"
proof (induction "length othersOrdered - idx" arbitrary: idx ops)
  case 0
  then have "\<not> idx < length othersOrdered" by simp
  then show ?case by (subst ringLoop.simps) simp
next
  case (Suc n)
  then have lt: "idx < length othersOrdered" by simp
  with assms(3) have lc: "idx < length cells" by simp
  note d = decodeAndDraw_draw_ops[OF assms(2), of "othersOrdered ! idx" "cells ! idx"]
  have n: "n = length othersOrdered - (idx + 1)" using Suc.hyps(2) by simp
  have "ringLoop env othersOrdered cells idx ops =
        ringLoop env othersOrdered cells (idx + 1)
          (ops @ draw_ops env (othersOrdered ! idx) (cells ! idx))"
    using lt lc assms(1) d by (subst ringLoop.simps) simp
  also note Suc.hyps(1)[OF n, of "ops @ draw_ops env (othersOrdered ! idx) (cells ! idx)"]
  finally show ?case using lt by (simp add: upt_conv_Cons)
qed

lemma map_index_zip:
  assumes "length xs \<le> length ys"
  shows "map (\<lambda>k. f (xs ! k) (ys ! k)) [0..<length xs] = map (\<lambda>(x, y). f x y) (zip xs ys)"
  using assms by (intro nth_equalityI) simp_all

lemma find_first_id:
  assumes "images \<noteq> []"
  shows "find (\<lambda>i. item_id i = item_id (hd images)) images = Some (hd images)"
  using assms by (cases images) simp_all

lemma find_no_id:
  assumes "\<forall>i \<in> set images. item_id i \<noteq> mainId"
  shows "find (\<lambda>i. item_id i = mainId) images = None"
  using assms by (simp add: find_None_iff)

lemma filter_first_id_distinct:
  assumes "images \<noteq> []" and "distinct (map item_id images)"
  shows "filter (\<lambda>i. item_id i \<noteq> item_id (hd images)) images = tl images"
proof -
  from assms(1) obtain x xs where images: "images = x # xs" by (cases images) auto
  have "\<forall>y \<in> set xs. item_id y \<noteq> item_id x"
    using assms(2) unfolding images by (metis distinct.simps(2) image_eqI list.simps(9) set_map)
  then have "filter (\<lambda>i. item_id i \<noteq> item_id x) xs = xs" by (simp add: filter_id_conv)
  then show ?thesis unfolding images by simp
qed

text \<open>
  C10. In \<^verbatim>\<open>renderCollageToCanvas\<close> with \<^verbatim>\<open>useMain\<close>, when no image has the id \<open>mainId\<close>, the run is
  the one with the id of the first image as \<open>mainId\<close>: no error is raised for the unknown id.
  The other images are those whose id differs from the id of the first image (the tail of the
  list when the ids are distinct); when nothing aborts, every image decodes and the layout has
  a cell for each of them, they are drawn one by one into the ring cells, in order, and then
  the first image is drawn into \<open>mainRect\<close>.
\<close>

theorem render_main_fallback:
  assumes "images \<noteq> []" and "context2d env" and "ropt_useMain options"
    and "\<forall>i \<in> set images. item_id i \<noteq> mainId"
  shows "renderCollageToCanvas env images mainId options
           = renderCollageToCanvas env images (item_id (hd images)) options
       \<and> (let sz = max 64 \<lfloor>ropt_size options\<rfloor>;
               others = filter (\<lambda>i. item_id i \<noteq> item_id (hd images)) images;
               othersOrdered = (if ropt_shuffleOthers options
                                then shuffleInPlace (random env) others else others);
               layout = computeCollageLayout
                          \<lparr>opt_size = real_of_int sz, opt_mainRatio = ropt_mainRatio options,
                           opt_gap = ropt_gap options,
                           opt_othersCount = real (length othersOrdered)\<rparr>
           in (distinct (map item_id images) \<longrightarrow> others = tl images)
              \<and> ((\<forall>k. \<not> aborted env k) \<and> (\<forall>f. decodeImage env f \<noteq> None)
                   \<and> length othersOrdered \<le> length (ringCells layout)
                 \<longrightarrow> renderCollageToCanvas env images mainId options =
                       ([Resize sz,
                         FillRect (ropt_background options) 0 0 (real_of_int sz) (real_of_int sz)]
                        @ concat (map (\<lambda>(item, cell). draw_ops env item cell)
                                    (zip othersOrdered (ringCells layout)))
                        @ draw_ops env (hd images) (mainRect layout), None)))"
proof -
  have m1: "(case find (\<lambda>i. item_id i = mainId) images of Some m \<Rightarrow> m | None \<Rightarrow> images ! 0)
              = hd images"
    using assms(1) by (simp add: find_no_id[OF assms(4)] hd_conv_nth)
  have m2: "(case find (\<lambda>i. item_id i = item_id (hd images)) images of
               Some m \<Rightarrow> m | None \<Rightarrow> images ! 0) = hd images"
    by (simp add: find_first_id[OF assms(1)])
  have a: "renderCollageToCanvas env images mainId options
           = renderCollageToCanvas env images (item_id (hd images)) options"
    unfolding renderCollageToCanvas_def m1 m2 ..
  define sz where "sz = max 64 \<lfloor>ropt_size options\<rfloor>"
  define others where "others = filter (\<lambda>i. item_id i \<noteq> item_id (hd images)) images"
  define othersOrdered where "othersOrdered = (if ropt_shuffleOthers options
                                then shuffleInPlace (random env) others else others)"
  define layout where "layout = computeCollageLayout
                          \<lparr>opt_size = real_of_int sz, opt_mainRatio = ropt_mainRatio options,
                           opt_gap = ropt_gap options,
                           opt_othersCount = real (length othersOrdered)\<rparr>"
  define ops0 where "ops0 = [Resize sz,
      FillRect (ropt_background options) 0 0 (real_of_int sz) (real_of_int sz) :: 'a CanvasOp]"
  have c0: "(length images = 0) = False" "(\<not> context2d env) = False" "(\<not> ropt_useMain options) = False"
    using assms(1-3) by simp_all
  have unf: "renderCollageToCanvas env images mainId options =
      (case ringLoop env othersOrdered (ringCells layout) 0 ops0 of
         (ops, Some e) \<Rightarrow> (ops, Some e)
       | (ops, None) \<Rightarrow>
           if aborted env (length othersOrdered) then (ops, Some AbortError)
           else (case decodeAndDraw env (hd images) (mainRect layout) of
                   None \<Rightarrow> (ops, Some DecodeError)
                 | Some drawn \<Rightarrow> (ops @ drawn, None)))"
    unfolding renderCollageToCanvas_def Let_def m1 c0 sz_def[symmetric] others_def[symmetric]
      othersOrdered_def[symmetric] layout_def[symmetric] ops0_def[symmetric]
    by (simp only: if_False)
  have b: "renderCollageToCanvas env images mainId options =
             (ops0 @ concat (map (\<lambda>(item, cell). draw_ops env item cell)
                                    (zip othersOrdered (ringCells layout)))
                   @ draw_ops env (hd images) (mainRect layout), None)"
    if ok: "(\<forall>k. \<not> aborted env k) \<and> (\<forall>f. decodeImage env f \<noteq> None)
             \<and> length othersOrdered \<le> length (ringCells layout)"
  proof -
    from ok have 1: "\<forall>k. \<not> aborted env k" and 2: "\<forall>f. decodeImage env f \<noteq> None"
      and 3: "length othersOrdered \<le> length (ringCells layout)" by simp_all
    have "ringLoop env othersOrdered (ringCells layout) 0 ops0 =
            (ops0 @ concat (map (\<lambda>(item, cell). draw_ops env item cell)
                                    (zip othersOrdered (ringCells layout))), None)"
      unfolding ringLoop_all_drawn[OF 1 2 3] map_index_zip[OF 3] ..
    then show ?thesis
      unfolding unf using 1 decodeAndDraw_draw_ops[OF 2, of "hd images" "mainRect layout"]
      by simp
  qed
  have c: "distinct (map item_id images) \<longrightarrow> others = tl images"
    unfolding others_def using filter_first_id_distinct[OF assms(1)] by blast
  show ?thesis
    unfolding Let_def sz_def[symmetric] others_def[symmetric] othersOrdered_def[symmetric]
      layout_def[symmetric] ops0_def[symmetric]
    using a b c by blast
qed

lemma single_counts:
  "map (allocateCounts 1 (ring_regions 64 16 32)) [Top, Right, Bottom, Left] = [1, 0, 0, 0]"
  by (simp add: allocateCounts_def ring_regions_def Let_def js_rem_def bumpLoop.simps)

lemma single_layout:
  "computeCollageLayout \<lparr>opt_size = 64, opt_mainRatio = 1 / 2, opt_gap = 0, opt_othersCount = 1\<rparr> =
     \<lparr>layout_size = 64, layout_gap = 0, mainRect = int_rect 16 16 32 32,
      ringCells = [int_rect 0 0 64 16]\<rparr>"
proof -
  let ?o = "\<lparr>opt_size = 64, opt_mainRatio = 1 / 2, opt_gap = 0, opt_othersCount = 1\<rparr>"
  have sz: "(64::int) = max 64 \<lfloor>opt_size ?o\<rfloor>"
    and gap: "(0::real) = clamp (opt_gap ?o) 0 (real_of_int \<lfloor>real_of_int 64 / 8\<rfloor>)"
    and N: "(1::int) = max 0 \<lfloor>opt_othersCount ?o\<rfloor>"
    and reg: "computeRegions 64 (opt_mainRatio ?o) = (int_rect 16 16 32 32, ring_regions 64 16 32)"
    using example_regions by (simp_all add: clamp_def)
  have c: "allocateCounts (real_of_int 1) (ring_regions 64 16 32) Top = 1"
    "allocateCounts (real_of_int 1) (ring_regions 64 16 32) Right = 0"
    "allocateCounts (real_of_int 1) (ring_regions 64 16 32) Bottom = 0"
    "allocateCounts (real_of_int 1) (ring_regions 64 16 32) Left = 0"
    using single_counts by simp_all
  have e: "buildCellsFilled (int_rect 0 0 64 16) (real_of_int 1) 0 = [int_rect 0 0 64 16]"
    "buildCellsFilled r (real_of_int 0) 0 = []" for r
    by (simp_all add: packer_eval)
  show ?thesis
    unfolding computeCollageLayout_eq[OF sz gap N reg refl] c e by simp
qed

theorem render_main_fallback_witness:
  "(example_images \<noteq> [] \<and> context2d example_platform \<and> ropt_useMain example_render_options)
   \<and> item_id (example_images ! 0) \<noteq> ''zz'' \<and> item_id (example_images ! 1) \<noteq> ''zz''
   \<and> renderCollageToCanvas example_platform example_images ''zz'' example_render_options
       = renderCollageToCanvas example_platform example_images ''a'' example_render_options
   \<and> renderCollageToCanvas example_platform example_images ''zz'' example_render_options
       = ([Resize 64, FillRect ''white'' 0 0 64 64,
           DrawImage 2 0 (15 / 4) 10 (5 / 2) 0 0 64 16,
           DrawImage 1 0 0 10 10 16 16 32 32], None)"
proof -
  have h: "example_images \<noteq> []" "context2d example_platform" "ropt_useMain example_render_options"
    "\<forall>i \<in> set example_images. item_id i \<noteq> ''zz''"
    by (simp_all add: example_images_def example_platform_def example_render_options_def)
  have ok: "(\<forall>k. \<not> aborted example_platform k) \<and> (\<forall>f. decodeImage example_platform f \<noteq> None)"
    by (simp add: example_platform_def)
  note t = render_main_fallback[OF h]
  have a: "item_id (hd example_images) = ''a''" by (simp add: example_images_def)
  have eq: "renderCollageToCanvas example_platform example_images ''zz'' example_render_options
       = renderCollageToCanvas example_platform example_images ''a'' example_render_options"
    using t[THEN conjunct1] unfolding a .
  have val: "renderCollageToCanvas example_platform example_images ''zz'' example_render_options
       = ([Resize 64, FillRect ''white'' 0 0 64 64,
           DrawImage 2 0 (15 / 4) 10 (5 / 2) 0 0 64 16,
           DrawImage 1 0 0 10 10 16 16 32 32], None)"
    using t[THEN conjunct2] ok
    by (simp add: Let_def example_images_def example_platform_def example_render_options_def
        single_layout draw_ops_def drawImageCover_def int_rect_def)
  have ids: "item_id (example_images ! 0) \<noteq> ''zz''" "item_id (example_images ! 1) \<noteq> ''zz''"
    by (simp_all add: example_images_def)
  from h(1-3) ids eq val show ?thesis by blast
qed


subsection \<open>Determinism\<close>



end
